theory Spec2Isabelle
  imports Main "HOL-Library.Word"
begin

section \<open>JavaScript strings\<close>

text \<open>
  A JavaScript string is a sequence of UTF-16 code units; \<open>length\<close>, \<open>match.index\<close>,
  \<open>split\<close>, \<open>trim\<close> and a regular expression without the \<open>u\<close> flag all count and
  compare code units. The extension (\<^verbatim>\<open>src/src/extension.ts\<close>) only ever compares
  against ASCII characters. \<open>js\<close> writes an ASCII literal as a JavaScript string.
\<close>

type_synonym jschar = "16 word"
type_synonym jsstring = "jschar list"

definition js :: "string \<Rightarrow> jsstring" where
  "js s = map of_char s"

text \<open>
  ECMAScript's \<open>WhiteSpace\<close> and \<open>LineTerminator\<close> code points, the ones
  \<open>String.prototype.trim\<close> strips and \<open>parseInt\<close> skips: TAB, LF, VT, FF, CR, SP,
  NBSP, U+1680, U+2000..U+200A, U+2028, U+2029, U+202F, U+205F, U+3000, U+FEFF.
\<close>

definition is_js_whitespace :: "jschar \<Rightarrow> bool" where
  "is_js_whitespace c \<longleftrightarrow>
     (0x09 \<le> c \<and> c \<le> 0x0D) \<or> c = 0x20 \<or> c = 0xA0 \<or> c = 0x1680 \<or>
     (0x2000 \<le> c \<and> c \<le> 0x200A) \<or> c = 0x2028 \<or> c = 0x2029 \<or> c = 0x202F \<or>
     c = 0x205F \<or> c = 0x3000 \<or> c = 0xFEFF"

text \<open>\<open>s.trimStart()\<close> and \<open>s.trim()\<close>.\<close>

definition trimStart :: "jsstring \<Rightarrow> jsstring" where
  "trimStart s = dropWhile is_js_whitespace s"

definition trim :: "jsstring \<Rightarrow> jsstring" where
  "trim s = rev (dropWhile is_js_whitespace (rev (dropWhile is_js_whitespace s)))"

text \<open>
  \<open>s.split(sep)\<close> for a separator of one code unit (the extension splits on
  \<^verbatim>\<open>'\n'\<close> and on \<^verbatim>\<open>":"\<close>): the substrings between successive separators, so
  the result is never empty and \<open>"".split(sep)\<close> is \<open>[""]\<close>. The accumulator
  \<open>cur\<close> holds the substring being read.
\<close>

fun split_acc :: "jschar \<Rightarrow> jsstring \<Rightarrow> jsstring \<Rightarrow> jsstring list" where
  "split_acc sep cur [] = [cur]"
| "split_acc sep cur (c # cs) =
     (if c = sep then cur # split_acc sep [] cs else split_acc sep (cur @ [c]) cs)"

definition split :: "jschar \<Rightarrow> jsstring \<Rightarrow> jsstring list" where
  "split sep s = split_acc sep [] s"

text \<open>
  \<open>parseInt(string, 10)\<close>. The argument is converted with \<open>ToString\<close> (\<open>undefined\<close>
  becomes the text \<^verbatim>\<open>undefined\<close>), leading white space is skipped, one sign is read, and
  the longest prefix of decimal digits is the value; no digit at all is \<open>NaN\<close>, here
  \<open>None\<close>. With the radix given as 10 no \<^verbatim>\<open>0x\<close> prefix is stripped. The value is the
  mathematical integer of the digits (the rounding of a JavaScript Number beyond \<open>2^53\<close>
  is not modelled).
\<close>

definition is_digit :: "jschar \<Rightarrow> bool" where
  "is_digit c \<longleftrightarrow> 0x30 \<le> c \<and> c \<le> 0x39"

definition digit_value :: "jschar \<Rightarrow> int" where
  "digit_value c = int (unat (c - 0x30))"

definition digits_value :: "jsstring \<Rightarrow> int" where
  "digits_value ds = foldl (\<lambda>acc d. 10 * acc + digit_value d) 0 ds"

definition ToString :: "jsstring option \<Rightarrow> jsstring" where
  "ToString v = (case v of None \<Rightarrow> js ''undefined'' | Some s \<Rightarrow> s)"

definition parseInt :: "jsstring option \<Rightarrow> int option" where
  "parseInt v =
     (let s = trimStart (ToString v);
          neg = (case s of [] \<Rightarrow> False | c # _ \<Rightarrow> c = 0x2D);
          s' = (case s of [] \<Rightarrow> [] | c # cs \<Rightarrow> if c = 0x2B \<or> c = 0x2D then cs else s);
          z = takeWhile is_digit s'
      in if z = [] then None
         else Some (if neg then - digits_value z else digits_value z))"

section \<open>The regular expression of the link provider\<close>

text \<open>
  \<^verbatim>\<open>/[^+\ :]+\+0x[0-9a-f]+\/0x[0-9a-f]+/g\<close> is a sequence of terms, each an atom (a
  literal code unit, or a character class, possibly negated, given by its ranges) that is
  matched once or, under \<^verbatim>\<open>+\<close>, one or more times, greedily.
\<close>

datatype atom = Lit jschar | CharClass bool "(jschar \<times> jschar) list"

datatype quantifier = Once | OneOrMore

type_synonym regex = "(atom \<times> quantifier) list"

definition in_ranges :: "(jschar \<times> jschar) list \<Rightarrow> jschar \<Rightarrow> bool" where
  "in_ranges rs c = list_ex (\<lambda>r. fst r \<le> c \<and> c \<le> snd r) rs"

fun atom_matches :: "atom \<Rightarrow> jschar \<Rightarrow> bool" where
  "atom_matches (Lit l) c = (c = l)"
| "atom_matches (CharClass negated rs) c = (in_ranges rs c \<noteq> negated)"

text \<open>
  The backtracking matcher of ECMAScript for such a pattern, anchored at the head of the
  input: the number of code units of the first successful alternative. A greedy
  \<^verbatim>\<open>a+\<close> reads one \<open>a\<close>, then prefers reading another one over going on with the rest
  of the pattern, and falls back to the rest when the longer attempt fails.
\<close>

fun match_here :: "regex \<Rightarrow> jsstring \<Rightarrow> nat option" where
  "match_here [] s = Some 0"
| "match_here ((a, q) # ts) [] = None"
| "match_here ((a, Once) # ts) (c # cs) =
     (if atom_matches a c then map_option Suc (match_here ts cs) else None)"
| "match_here ((a, OneOrMore) # ts) (c # cs) =
     (if atom_matches a c then
        (case match_here ((a, OneOrMore) # ts) cs of
           Some n \<Rightarrow> Some (Suc n)
         | None \<Rightarrow> map_option Suc (match_here ts cs))
      else None)"

text \<open>
  \<open>RegExpBuiltinExec\<close> for a global expression: the search starts at \<open>lastIndex\<close> and
  tries every start position up to the end of the string; the result is the index and
  the length of the match.
\<close>

function exec_from :: "regex \<Rightarrow> jsstring \<Rightarrow> nat \<Rightarrow> (nat \<times> nat) option" where
  "exec_from r s i =
     (if length s < i then None
      else (case match_here r (drop i s) of
              Some n \<Rightarrow> Some (i, n)
            | None \<Rightarrow> exec_from r s (Suc i)))"
  by pat_completeness auto
termination
  by (relation "measure (\<lambda>(r, s, i). Suc (length s) - i)") auto

declare exec_from.simps [simp del]

lemma exec_from_bounds:
  "exec_from r s i = Some (k, n) \<Longrightarrow> i \<le> k \<and> k \<le> length s"
proof (induction r s i rule: exec_from.induct)
  case (1 r s i)
  show ?case
  proof (cases "match_here r (drop i s)")
    case None
    with "1.prems" have le: "\<not> length s < i" and rec: "exec_from r s (Suc i) = Some (k, n)"
      by (auto simp: exec_from.simps [of r s i] split: if_splits)
    from "1.IH" [OF le None rec] show ?thesis by simp
  next
    case (Some m)
    with "1.prems" show ?thesis
      by (auto simp: exec_from.simps [of r s i] split: if_splits)
  qed
qed

text \<open>
  \<open>line.matchAll(regex)\<close>: \<open>exec\<close> is repeated from \<open>lastIndex\<close>, which a match sets
  to its end, and which is advanced by one past an empty match. Each match gives its
  \<open>index\<close> and its text \<open>match[0]\<close>.
\<close>

function matchAll_from :: "regex \<Rightarrow> jsstring \<Rightarrow> nat \<Rightarrow> (nat \<times> jsstring) list" where
  "matchAll_from r s i =
     (case exec_from r s i of
        None \<Rightarrow> []
      | Some (k, n) \<Rightarrow>
          (k, take n (drop k s)) # matchAll_from r s (if n = 0 then Suc k else k + n))"
  by pat_completeness auto
termination matchAll_from
proof (relation "measure (\<lambda>(r, s, i). Suc (length s) - i)")
  show "wf (measure (\<lambda>(r, s, i). Suc (length s) - i))" by simp
next
  fix r :: regex and s :: jsstring and i :: nat and x2 :: "nat \<times> nat" and k n :: nat
  assume "exec_from r s i = Some x2" and "(k, n) = x2"
  then have "exec_from r s i = Some (k, n)" by simp
  from exec_from_bounds [OF this] have "i \<le> k" and "k \<le> length s" by simp_all
  then show "((r, s, if n = 0 then Suc k else k + n), r, s, i)
               \<in> measure (\<lambda>(r, s, i). Suc (length s) - i)"
    by auto
qed

declare matchAll_from.simps [simp del]

definition matchAll :: "regex \<Rightarrow> jsstring \<Rightarrow> (nat \<times> jsstring) list" where
  "matchAll r s = matchAll_from r s 0"

text \<open>The pattern of \<open>provideTerminalLinks\<close>, term by term.\<close>

definition hex_class :: atom where
  "hex_class = CharClass False [(0x30, 0x39), (0x61, 0x66)]"

definition symbol_class :: atom where
  "symbol_class = CharClass True [(0x2B, 0x2B), (0x20, 0x20), (0x3A, 0x3A)]"

definition address_regex :: regex where
  "address_regex =
     [(symbol_class, OneOrMore),
      (Lit 0x2B, Once), (Lit 0x30, Once), (Lit 0x78, Once), (hex_class, OneOrMore),
      (Lit 0x2F, Once), (Lit 0x30, Once), (Lit 0x78, Once), (hex_class, OneOrMore)]"

text \<open>
  The language of a pattern, stated without any search order: the strings that the
  terms can read one after the other.
\<close>

inductive matches :: "regex \<Rightarrow> jsstring \<Rightarrow> bool" where
  matches_Nil: "matches [] []"
| matches_Once: "atom_matches a c \<Longrightarrow> matches ts w \<Longrightarrow> matches ((a, Once) # ts) (c # w)"
| matches_Last: "atom_matches a c \<Longrightarrow> matches ts w \<Longrightarrow> matches ((a, OneOrMore) # ts) (c # w)"
| matches_More: "atom_matches a c \<Longrightarrow> matches ((a, OneOrMore) # ts) w
     \<Longrightarrow> matches ((a, OneOrMore) # ts) (c # w)"

section \<open>The terminal link provider\<close>

text \<open>
  \<open>Addr2lineTerminalLink\<close>: a \<open>vscode.TerminalLink\<close> (\<open>startIndex\<close>, \<open>length\<close>,
  \<open>tooltip\<close>) together with the matched text \<open>link\<close>.
\<close>

record Addr2lineTerminalLink =
  startIndex :: nat
  length' :: nat
  tooltip :: jsstring
  link :: jsstring

text \<open>
  \<open>provideTerminalLinks\<close>: \<open>target\<close> is the configuration value
  \<^verbatim>\<open>addr2line.target\<close>, \<open>line\<close> is \<open>context.line\<close>. The loop pushes one link for
  every match that \<open>matchAll\<close> yields.
\<close>

definition push_link :: "jsstring \<Rightarrow> Addr2lineTerminalLink list \<Rightarrow> nat \<times> jsstring
    \<Rightarrow> Addr2lineTerminalLink list" where
  "push_link target links m =
     links @ [\<lparr> startIndex = fst m,
                length' = length (snd m),
                tooltip = js ''addr2line -e '' @ target @ js '' this address'',
                link = snd m \<rparr>]"

definition provideTerminalLinks :: "jsstring \<Rightarrow> jsstring \<Rightarrow> Addr2lineTerminalLink list" where
  "provideTerminalLinks target line =
     foldl (push_link target) [] (matchAll address_regex line)"

text \<open>The link built from one match, as the loop body of \<open>provideTerminalLinks\<close> does.\<close>

definition link_of_match :: "jsstring \<Rightarrow> nat \<times> jsstring \<Rightarrow> Addr2lineTerminalLink" where
  "link_of_match target m =
     \<lparr> startIndex = fst m, length' = length (snd m),
       tooltip = js ''addr2line -e '' @ target @ js '' this address'', link = snd m \<rparr>"

section \<open>The host environment\<close>

text \<open>
  What the extension reads from the editor and from Node.js each time it runs: the two
  configuration values \<^verbatim>\<open>addr2line.command\<close> and \<^verbatim>\<open>addr2line.target\<close>, the
  \<open>uri.path\<close> of the workspace folders (\<open>None\<close> for \<open>undefined\<close>), \<open>fs.existsSync\<close>,
  and the library functions \<open>path.resolve\<close> and \<open>path.relative\<close>, which are taken as
  parameters.
\<close>

record host =
  cfg_command :: jsstring
  cfg_target :: jsstring
  workspaceFolders :: "jsstring list option"
  existsSync :: "jsstring \<Rightarrow> bool"
  path_resolve :: "jsstring \<Rightarrow> jsstring \<Rightarrow> jsstring"
  path_relative :: "jsstring \<Rightarrow> jsstring \<Rightarrow> jsstring"

section \<open>Parsing the resolver's output\<close>

record QuickPickItem =
  label :: jsstring
  description :: "jsstring option"

text \<open>
  The three arrays that the \<open>then\<close> callback of \<open>handleTerminalLink\<close> fills, one
  element per output line: \<open>quickPickItems\<close>, \<open>realPaths\<close> and \<open>lines\<close>.
\<close>

record parsed =
  quickPickItems :: "QuickPickItem list"
  realPaths :: "jsstring list"
  lines :: "int list"

text \<open>\<open>arr[i]\<close>: \<open>undefined\<close>, here \<open>None\<close>, when \<open>i\<close> is out of range.\<close>

definition element :: "'a list \<Rightarrow> nat \<Rightarrow> 'a option" where
  "element xs i = (if i < length xs then Some (xs ! i) else None)"

text \<open>
  \<open>relativeTo\<close>: the path of the first workspace folder, \<^verbatim>\<open>"/"\<close> when there is none.
\<close>

definition relativeTo :: "host \<Rightarrow> jsstring" where
  "relativeTo h = (case workspaceFolders h of Some (folder # _) \<Rightarrow> folder | _ \<Rightarrow> js ''/'')"

text \<open>
  The body of the loop over \<open>outputLines\<close>. The destructuring
  \<^verbatim>\<open>let [file, lineStr] = outputLine.trim().split(":")\<close> reads the first two elements;
  \<open>split\<close> never returns an empty array, so \<open>file\<close> is always a string, while
  \<open>lineStr\<close> is \<open>undefined\<close> when the line holds no colon.
\<close>

definition first_element :: "jsstring list \<Rightarrow> jsstring" where
  "first_element parts = (case parts of [] \<Rightarrow> [] | f # _ \<Rightarrow> f)"

definition parse_line :: "host \<Rightarrow> parsed \<Rightarrow> jsstring \<Rightarrow> parsed" where
  "parse_line h acc outputLine =
     (let parts = split 0x3A (trim outputLine);
          file = first_element parts;
          lineStr = element parts 1;
          line = (case parseInt lineStr of None \<Rightarrow> 1 | Some n \<Rightarrow> n);
          realPath = path_resolve h (relativeTo h) file
      in \<lparr> quickPickItems = quickPickItems acc @
             [\<lparr> label = path_relative h (relativeTo h) realPath, description = lineStr \<rparr>],
           realPaths = realPaths acc @ [realPath],
           lines = lines acc @ [line] \<rparr>)"

definition parse_output :: "host \<Rightarrow> jsstring \<Rightarrow> parsed" where
  "parse_output h output =
     foldl (parse_line h) \<lparr> quickPickItems = [], realPaths = [], lines = [] \<rparr>
       (split 0x0A (trim output))"

text \<open>
  What the extension asks of the editor: \<open>openFileLine(file, line)\<close>,
  \<open>vscode.window.showQuickPick(items)\<close> and \<open>vscode.window.showErrorMessage(message)\<close>.
\<close>

datatype ui_action =
    OpenFileLine jsstring int
  | ShowQuickPick "QuickPickItem list"
  | ShowErrorMessage jsstring

text \<open>
  The \<open>then\<close> callback of \<open>handleTerminalLink\<close>, run with the resolver's output, and
  the \<open>catch\<close> callback, run with the error's message.
\<close>

definition on_resolved :: "host \<Rightarrow> jsstring \<Rightarrow> ui_action list" where
  "on_resolved h output =
     (let r = parse_output h output
      in if 1 < length (quickPickItems r) then [ShowQuickPick (quickPickItems r)]
         else if length (quickPickItems r) = 1 then [OpenFileLine (realPaths r ! 0) (lines r ! 0)]
         else [])"

definition on_rejected :: "jsstring \<Rightarrow> ui_action list" where
  "on_rejected message = [ShowErrorMessage (js ''Error resolving address: '' @ message)]"

text \<open>
  The callback of \<open>showQuickPick\<close>: \<open>selected\<close> is \<open>undefined\<close> when the user dismisses
  the menu, and otherwise one of the item objects that were passed, found again by
  \<open>indexOf\<close>, which compares object identities; the choice is given here by its index.
\<close>

definition on_selected :: "host \<Rightarrow> jsstring \<Rightarrow> nat option \<Rightarrow> ui_action list" where
  "on_selected h output selected =
     (let r = parse_output h output
      in case selected of
           None \<Rightarrow> []
         | Some selectedIndex \<Rightarrow>
             if selectedIndex < length (quickPickItems r)
             then [OpenFileLine (realPaths r ! selectedIndex) (lines r ! selectedIndex)]
             else [])"

text \<open>
  The resolution result in the words of the specification: the ordered list of
  file-path/line-number pairs, one per line of the trimmed output, each line trimmed and
  split on the colon.
\<close>

definition line_number :: "jsstring option \<Rightarrow> int" where
  "line_number lineStr = (case parseInt lineStr of None \<Rightarrow> 1 | Some n \<Rightarrow> n)"

definition resolution_result :: "host \<Rightarrow> jsstring \<Rightarrow> (jsstring \<times> int) list" where
  "resolution_result h output =
     map (\<lambda>outputLine.
            (path_resolve h (relativeTo h) (first_element (split 0x3A (trim outputLine))),
             line_number (element (split 0x3A (trim outputLine)) 1)))
         (split 0x0A (trim output))"

text \<open>\<open>pieces.join(sep)\<close>, the inverse of \<open>split\<close>.\<close>

fun join :: "jschar \<Rightarrow> jsstring list \<Rightarrow> jsstring" where
  "join sep [] = []"
| "join sep [p] = p"
| "join sep (p # q # ps) = p @ sep # join sep (q # ps)"

text \<open>The part of a line after its first colon, if it has one.\<close>

definition after_first_colon :: "jsstring \<Rightarrow> jsstring option" where
  "after_first_colon s =
     (case dropWhile (\<lambda>c. c \<noteq> 0x3A) s of [] \<Rightarrow> None | _ # rest \<Rightarrow> Some rest)"

text \<open>The quick pick item built from one output line, as the loop body does.\<close>

definition item_of_line :: "host \<Rightarrow> jsstring \<Rightarrow> QuickPickItem" where
  "item_of_line h outputLine =
     \<lparr> label = path_relative h (relativeTo h)
                 (path_resolve h (relativeTo h) (first_element (split 0x3A (trim outputLine)))),
       description = element (split 0x3A (trim outputLine)) 1 \<rparr>"

text \<open>
  A host for concrete runs: the default configuration of \<^verbatim>\<open>package.json\<close>, one
  workspace folder \<^verbatim>\<open>/ws\<close> in which every file exists, and, for the two path
  functions, what \<open>path.resolve\<close> and \<open>path.relative\<close> return on a folder and a
  plain relative file name below it.
\<close>

definition example_host :: host where
  "example_host =
     \<lparr> cfg_command = js ''addr2line'', cfg_target = js ''vmlinux'',
       workspaceFolders = Some [js ''/ws''], existsSync = (\<lambda>_. True),
       path_resolve = (\<lambda>from to. from @ js ''/'' @ to),
       path_relative = (\<lambda>from to. drop (Suc (length from)) to) \<rparr>"

section \<open>The resolver process and its promises\<close>

text \<open>
  A promise is pending until the first call of its \<open>resolve\<close> or \<open>reject\<close>; later
  calls change nothing. A rejection carries the message of its \<open>Error\<close>.
\<close>

datatype promise_state = Pending | Fulfilled jsstring | Rejected jsstring

text \<open>
  The listeners registered on the \<^verbatim>\<open>'close'\<close> event of a child process: the one of
  \<open>start\<close>, which sets \<open>this.process\<close> to \<open>null\<close>, and the one of
  \<open>resolveAddress\<close>, which rejects the promise it was registered for.
\<close>

datatype close_listener = ClearProcess | RejectExited nat

text \<open>
  A \<open>ChildProcess\<close> object of Node.js, as far as the extension uses it: the command
  line it was spawned with, whether the operating-system process is still running
  (\<open>alive\<close>), whether its \<^verbatim>\<open>'close'\<close> event has been emitted, everything written to
  its standard input, and the listeners on the \<^verbatim>\<open>'data'\<close> event of its standard output
  and on its \<^verbatim>\<open>'error'\<close> and \<^verbatim>\<open>'close'\<close> events, in the order of registration. The
  listeners of \<open>resolveAddress\<close> are named by the promise they settle. \<open>cp.spawn\<close>
  is called without options, so both streams are pipes and are never \<open>null\<close>.
\<close>

record child_process =
  spawn_command :: jsstring
  spawn_args :: "jsstring list"
  alive :: bool
  closed :: bool
  stdin_written :: jsstring
  data_listeners :: "nat list"
  error_listeners :: "nat list"
  close_listeners :: "close_listener list"

text \<open>
  A \<open>FileSystemWatcher\<close>: the path it watches, which is also the \<open>absoluteTarget\<close>
  its three callbacks have captured, and whether it has been disposed. It is created with
  all three \<open>ignore\<close> flags \<open>false\<close>.
\<close>

record watcher =
  watched :: jsstring
  disposed :: bool

text \<open>
  The state between two callbacks. \<open>process\<close> is the field of the \<open>Addr2Line\<close> object
  and \<open>targetWatcher\<close> the variable of \<open>activate\<close>; both hold an object by its index
  in \<open>children\<close>, respectively \<open>watchers\<close>, the lists of all objects created so far. A
  promise is named by its index in \<open>promises\<close>; \<open>timers\<close> are the pending
  \<open>setTimeout\<close> calls, each with its promise and its delay in milliseconds;
  \<open>link_handlers\<close> are the promises that carry the \<open>then\<close> and \<open>catch\<close> callbacks
  of \<open>handleTerminalLink\<close>; \<open>ui\<close> lists the requests made to the editor.
\<close>

record state =
  process :: "nat option"
  targetWatcher :: "nat option"
  children :: "child_process list"
  watchers :: "watcher list"
  promises :: "promise_state list"
  timers :: "(nat \<times> nat) list"
  link_handlers :: "nat list"
  ui :: "ui_action list"

definition initial_state :: state where
  "initial_state =
     \<lparr> process = None, targetWatcher = None, children = [], watchers = [], promises = [],
       timers = [], link_handlers = [], ui = [] \<rparr>"

definition update_child :: "nat \<Rightarrow> (child_process \<Rightarrow> child_process) \<Rightarrow> state \<Rightarrow> state" where
  "update_child p f s =
     (if p < length (children s) then s\<lparr> children := (children s)[p := f (children s ! p)] \<rparr>
      else s)"

text \<open>\<open>child.kill(9)\<close>: the process is sent SIGKILL; its \<^verbatim>\<open>'close'\<close> event comes later.\<close>

definition kill :: "nat \<Rightarrow> state \<Rightarrow> state" where
  "kill p s = update_child p (\<lambda>c. c\<lparr> alive := False \<rparr>) s"

text \<open>\<open>cp.spawn(command, ["-i", "-e", target])\<close> followed by \<open>on('close', ...)\<close>.\<close>

definition spawned :: "jsstring \<Rightarrow> jsstring \<Rightarrow> child_process" where
  "spawned command target =
     \<lparr> spawn_command = command, spawn_args = [js ''-i'', js ''-e'', target],
       alive = True, closed = False, stdin_written = [],
       data_listeners = [], error_listeners = [], close_listeners = [ClearProcess] \<rparr>"

definition start :: "host \<Rightarrow> jsstring \<Rightarrow> state \<Rightarrow> state" where
  "start h target s =
     (let s1 = (case process s of Some p \<Rightarrow> kill p s | None \<Rightarrow> s)
      in s1\<lparr> children := children s1 @ [spawned (cfg_command h) target],
             process := Some (length (children s1)) \<rparr>)"

definition stop :: "state \<Rightarrow> state" where
  "stop s = (case process s of Some p \<Rightarrow> (kill p s)\<lparr> process := None \<rparr> | None \<Rightarrow> s)"

text \<open>The messages of the four errors that \<open>resolveAddress\<close> rejects with.\<close>

definition not_running_message :: "jsstring \<Rightarrow> jsstring" where
  "not_running_message target =
     js ''addr2line -e '' @ target @ js '' not running. Is addr2line installed ? Does ''
       @ target @ js '' exist ?''"

definition timeout_message :: jsstring where
  "timeout_message = js ''addr2line resolution timed out after 5 seconds''"

definition errored_message :: jsstring where
  "errored_message = js ''addr2line errored out''"

fun decimal :: "nat \<Rightarrow> jsstring" where
  "decimal n = (if n < 10 then [0x30 + of_nat n] else decimal (n div 10) @ [0x30 + of_nat (n mod 10)])"

declare decimal.simps [simp del]

text \<open>The exit code in a template string: a number, or \<open>null\<close> for a process ended by a signal.\<close>

definition code_text :: "int option \<Rightarrow> jsstring" where
  "code_text code =
     (case code of
        None \<Rightarrow> js ''null''
      | Some n \<Rightarrow> if n < 0 then 0x2D # decimal (nat (- n)) else decimal (nat n))"

definition exited_message :: "int option \<Rightarrow> jsstring" where
  "exited_message code = js ''addr2line exited with code '' @ code_text code"

text \<open>
  Settling a promise: nothing happens unless it is pending; a promise with the callbacks
  of \<open>handleTerminalLink\<close> then runs \<open>then\<close> or \<open>catch\<close>. The callback is a
  microtask that runs as soon as the settling listener returns; no listener asks anything
  of the editor itself, so the requests of the callback are recorded at once.
\<close>

definition reaction :: "host \<Rightarrow> promise_state \<Rightarrow> ui_action list" where
  "reaction h outcome =
     (case outcome of
        Pending \<Rightarrow> []
      | Fulfilled output \<Rightarrow> on_resolved h output
      | Rejected message \<Rightarrow> on_rejected message)"

definition settle :: "host \<Rightarrow> promise_state \<Rightarrow> state \<Rightarrow> nat \<Rightarrow> state" where
  "settle h outcome s k =
     (if k < length (promises s) \<and> promises s ! k = Pending
      then s\<lparr> promises := (promises s)[k := outcome],
              ui := ui s @ (if k \<in> set (link_handlers s) then reaction h outcome else []) \<rparr>
      else s)"

text \<open>
  \<open>resolveAddress(address)\<close>: the new promise and the state after the executor has run.
  Without a process the promise is rejected at once. Otherwise the executor sets the
  timer, registers its three listeners and writes the address and a newline to the
  standard input of the process.
\<close>

definition resolveAddress :: "host \<Rightarrow> jsstring \<Rightarrow> state \<Rightarrow> state \<times> nat" where
  "resolveAddress h address s =
     (let k = length (promises s)
      in case process s of
           None \<Rightarrow>
             (s\<lparr> promises := promises s @ [Rejected (not_running_message (cfg_target h))] \<rparr>, k)
         | Some p \<Rightarrow>
             (update_child p
                (\<lambda>c. c\<lparr> data_listeners := data_listeners c @ [k],
                        error_listeners := error_listeners c @ [k],
                        close_listeners := close_listeners c @ [RejectExited k],
                        stdin_written := stdin_written c @ address @ [0x0A] \<rparr>)
                (s\<lparr> promises := promises s @ [Pending], timers := timers s @ [(k, 5000)] \<rparr>),
              k))"

text \<open>
  \<open>handleTerminalLink(link)\<close>: \<open>resolveAddress(link.link)\<close> with \<open>then\<close> and
  \<open>catch\<close> attached; on a promise that is already rejected \<open>catch\<close> runs at once.
\<close>

definition handleTerminalLink :: "host \<Rightarrow> jsstring \<Rightarrow> state \<Rightarrow> state" where
  "handleTerminalLink h link_text s =
     (let (s1, k) = resolveAddress h link_text s
      in s1\<lparr> link_handlers := link_handlers s1 @ [k],
             ui := ui s1 @ reaction h (promises s1 ! k) \<rparr>)"

text \<open>
  The events that Node.js delivers for a child process: a chunk of standard output, an
  error, and the close of the process with its exit code. Each runs the listeners
  registered for it, in order. Nothing is delivered for an object that does not exist or
  whose \<^verbatim>\<open>'close'\<close> event has already been emitted.
\<close>

definition emit_data :: "host \<Rightarrow> nat \<Rightarrow> jsstring \<Rightarrow> state \<Rightarrow> state" where
  "emit_data h p chunk s =
     (if p < length (children s) \<and> \<not> closed (children s ! p)
      then foldl (settle h (Fulfilled chunk)) s (data_listeners (children s ! p))
      else s)"

definition emit_error :: "host \<Rightarrow> nat \<Rightarrow> state \<Rightarrow> state" where
  "emit_error h p s =
     (if p < length (children s) \<and> \<not> closed (children s ! p)
      then foldl (settle h (Rejected errored_message)) s (error_listeners (children s ! p))
      else s)"

definition run_close_listener :: "host \<Rightarrow> int option \<Rightarrow> state \<Rightarrow> close_listener \<Rightarrow> state" where
  "run_close_listener h code s l =
     (case l of
        ClearProcess \<Rightarrow> s\<lparr> process := None \<rparr>
      | RejectExited k \<Rightarrow> settle h (Rejected (exited_message code)) s k)"

definition emit_close :: "host \<Rightarrow> nat \<Rightarrow> int option \<Rightarrow> state \<Rightarrow> state" where
  "emit_close h p code s =
     (if p < length (children s) \<and> \<not> closed (children s ! p)
      then foldl (run_close_listener h code)
             (update_child p (\<lambda>c. c\<lparr> alive := False, closed := True \<rparr>) s)
             (close_listeners (children s ! p))
      else s)"

text \<open>The timer of promise \<open>k\<close> fires: it is removed and its callback rejects the promise.\<close>

definition fire_timer :: "host \<Rightarrow> nat \<Rightarrow> state \<Rightarrow> state" where
  "fire_timer h k s =
     (if k \<in> fst ` set (timers s)
      then settle h (Rejected timeout_message)
             (s\<lparr> timers := filter (\<lambda>t. fst t \<noteq> k) (timers s) \<rparr>) k
      else s)"

section \<open>Watching the target\<close>

definition dispose :: "nat \<Rightarrow> state \<Rightarrow> state" where
  "dispose w s =
     (if w < length (watchers s)
      then s\<lparr> watchers := (watchers s)[w := (watchers s ! w)\<lparr> disposed := True \<rparr>] \<rparr>
      else s)"

text \<open>
  \<open>monitorTarget()\<close>, called by \<open>activate\<close> and on every change of the workspace
  folders.
\<close>

definition monitorTarget :: "host \<Rightarrow> state \<Rightarrow> state" where
  "monitorTarget h s =
     (let target = cfg_target h;
          s1 = (case targetWatcher s of
                  Some w \<Rightarrow> (dispose w s)\<lparr> targetWatcher := None \<rparr>
                | None \<Rightarrow> s)
      in case workspaceFolders h of
           Some (folder # _) \<Rightarrow>
             (let absoluteTarget = folder @ js ''/'' @ target;
                  s2 = (if existsSync h absoluteTarget then start h absoluteTarget s1 else s1)
              in s2\<lparr> watchers := watchers s2 @ [\<lparr> watched = absoluteTarget, disposed = False \<rparr>],
                     targetWatcher := Some (length (watchers s2)) \<rparr>)
         | _ \<Rightarrow> s1)"

definition activate :: "host \<Rightarrow> state" where
  "activate h = monitorTarget h initial_state"

text \<open>
  The callbacks of a watcher: \<open>onDidChange\<close> and \<open>onDidCreate\<close> call
  \<open>addr2line.start(absoluteTarget)\<close>, \<open>onDidDelete\<close> calls \<open>addr2line.stop()\<close>. A
  disposed watcher delivers nothing.
\<close>

datatype file_event = Changed | Created | Deleted

definition watcher_event :: "host \<Rightarrow> nat \<Rightarrow> file_event \<Rightarrow> state \<Rightarrow> state" where
  "watcher_event h w e s =
     (if w < length (watchers s) \<and> \<not> disposed (watchers s ! w)
      then (case e of
              Changed \<Rightarrow> start h (watched (watchers s ! w)) s
            | Created \<Rightarrow> start h (watched (watchers s ! w)) s
            | Deleted \<Rightarrow> stop s)
      else s)"

section \<open>Runs of the extension\<close>

text \<open>
  Everything that can happen between two states: a call of one of the wrapper's methods,
  a click on a link, a change of the workspace folders, a file event of a watcher, an
  event of a child process, or a timer. A run delivers a list of events, one after the
  other, as the event loop of Node.js does; the host stays the same throughout.
\<close>

datatype event =
    Start jsstring
  | Stop
  | ResolveAddress jsstring
  | HandleTerminalLink jsstring
  | MonitorTarget
  | FileEvent nat file_event
  | StdoutData nat jsstring
  | ChildError nat
  | ChildClose nat "int option"
  | TimerFired nat

definition step :: "host \<Rightarrow> state \<Rightarrow> event \<Rightarrow> state" where
  "step h s e =
     (case e of
        Start target \<Rightarrow> start h target s
      | Stop \<Rightarrow> stop s
      | ResolveAddress address \<Rightarrow> fst (resolveAddress h address s)
      | HandleTerminalLink link_text \<Rightarrow> handleTerminalLink h link_text s
      | MonitorTarget \<Rightarrow> monitorTarget h s
      | FileEvent w fe \<Rightarrow> watcher_event h w fe s
      | StdoutData p chunk \<Rightarrow> emit_data h p chunk s
      | ChildError p \<Rightarrow> emit_error h p s
      | ChildClose p code \<Rightarrow> emit_close h p code s
      | TimerFired k \<Rightarrow> fire_timer h k s)"

definition run :: "host \<Rightarrow> state \<Rightarrow> event list \<Rightarrow> state" where
  "run h s es = foldl (step h) s es"

text \<open>The child processes that are running in a state.\<close>

definition live :: "state \<Rightarrow> nat list" where
  "live s = filter (\<lambda>p. alive (children s ! p)) [0..<length (children s)]"

section \<open>Observations and invariants of runs\<close>

text \<open>
  The events that can settle the promise \<open>k\<close> of a query sent to the child process
  \<open>p\<close>: data, an error or the close of that process, and the promise's own timer.
\<close>

fun concerns :: "nat \<Rightarrow> nat \<Rightarrow> event \<Rightarrow> bool" where
  "concerns p k (StdoutData q chunk) = (q = p)"
| "concerns p k (ChildError q) = (q = p)"
| "concerns p k (ChildClose q code) = (q = p)"
| "concerns p k (TimerFired j) = (j = k)"
| "concerns p k e = False"

text \<open>
  The events that can assign \<open>this.process\<close>: \<open>start\<close> and \<open>stop\<close>, whether called
  directly, by \<open>monitorTarget\<close> or by a watcher, and the close of a child process.
\<close>

fun changes_handle :: "event \<Rightarrow> bool" where
  "changes_handle (Start target) = True"
| "changes_handle Stop = True"
| "changes_handle MonitorTarget = True"
| "changes_handle (FileEvent w fe) = True"
| "changes_handle (ChildClose p code) = True"
| "changes_handle e = False"

definition active_watchers :: "state \<Rightarrow> nat list" where
  "active_watchers s = filter (\<lambda>w. \<not> disposed (watchers s ! w)) [0..<length (watchers s)]"

text \<open>A host whose workspace folder holds no target file.\<close>

definition bare_host :: host where
  "bare_host = example_host\<lparr> existsSync := (\<lambda>_. False) \<rparr>"


text \<open>
  Invariants of the states that runs reach: the process handle names an existing
  \<open>ChildProcess\<close> object; every listener of \<open>resolveAddress\<close> names an existing
  promise; a pending promise still has its timer; and all watchers are disposed except
  the one that \<open>targetWatcher\<close> holds. \<open>awaiting p k\<close> describes a query in flight:
  promise \<open>k\<close> is pending, its timer is set, and only the child process \<open>p\<close>
  carries listeners for it.
\<close>

definition handle_valid :: "state \<Rightarrow> bool" where
  "handle_valid s = (case process s of None \<Rightarrow> True | Some p \<Rightarrow> p < length (children s))"

definition listens :: "state \<Rightarrow> nat \<Rightarrow> nat \<Rightarrow> bool" where
  "listens s q j \<longleftrightarrow>
     q < length (children s) \<and>
     (j \<in> set (data_listeners (children s ! q)) \<or>
      j \<in> set (error_listeners (children s ! q)) \<or>
      RejectExited j \<in> set (close_listeners (children s ! q)))"

definition listeners_bounded :: "state \<Rightarrow> bool" where
  "listeners_bounded s \<longleftrightarrow> (\<forall>q j. listens s q j \<longrightarrow> j < length (promises s))"

definition pending_have_timers :: "state \<Rightarrow> bool" where
  "pending_have_timers s \<longleftrightarrow>
     (\<forall>k < length (promises s). promises s ! k = Pending \<longrightarrow> k \<in> fst ` set (timers s))"

definition awaiting :: "nat \<Rightarrow> nat \<Rightarrow> state \<Rightarrow> bool" where
  "awaiting p k s \<longleftrightarrow>
     k < length (promises s) \<and> promises s ! k = Pending \<and> (k, 5000) \<in> set (timers s) \<and>
     (\<forall>q. listens s q k \<longrightarrow> q = p)"

definition watcher_held :: "state \<Rightarrow> bool" where
  "watcher_held s \<longleftrightarrow>
     (case targetWatcher s of
        None \<Rightarrow> (\<forall>w < length (watchers s). disposed (watchers s ! w))
      | Some v \<Rightarrow> v < length (watchers s) \<and>
          (\<forall>w < length (watchers s). disposed (watchers s ! w) \<longleftrightarrow> w \<noteq> v))"

text \<open>
  Every child process keeps the close listener of \<open>start\<close>, and the process held has
  not emitted \<^verbatim>\<open>'close'\<close>.
\<close>

definition held_open :: "state \<Rightarrow> bool" where
  "held_open s \<longleftrightarrow>
     (\<forall>p < length (children s). ClearProcess \<in> set (close_listeners (children s ! p))) \<and>
     (case process s of None \<Rightarrow> True | Some p \<Rightarrow> \<not> closed (children s ! p))"

section \<open>Properties of the link provider\<close>

lemma foldl_push_link:
  "foldl (push_link target) acc ms = acc @ map (link_of_match target) ms"
  by (induction ms arbitrary: acc) (simp_all add: push_link_def link_of_match_def)

lemma match_here_sound:
  "match_here r s = Some n \<Longrightarrow> n \<le> length s \<and> matches r (take n s)"
proof (induction r s arbitrary: n rule: match_here.induct)
  case (1 s)
  then show ?case by (simp add: matches_Nil)
next
  case (2 a q ts)
  then show ?case by simp
next
  case (3 a ts c cs)
  then show ?case
    by (auto split: if_splits intro: matches_Once)
next
  case (4 a ts c cs)
  from "4.prems" have am: "atom_matches a c" by (simp split: if_splits)
  show ?case
  proof (cases "match_here ((a, OneOrMore) # ts) cs")
    case None
    with "4.prems" am obtain m where m: "match_here ts cs = Some m" and n: "n = Suc m"
      by auto
    from "4.IH"(2) [OF am None m] n am show ?thesis
      by (auto intro: matches_Last)
  next
    case (Some m)
    with "4.prems" am have n: "n = Suc m" by simp
    from "4.IH"(1) [OF am Some] n am show ?thesis
      by (auto intro: matches_More)
  qed
qed

lemma exec_from_match:
  "exec_from r s i = Some (k, n) \<Longrightarrow> match_here r (drop k s) = Some n"
proof (induction r s i rule: exec_from.induct)
  case (1 r s i)
  show ?case
  proof (cases "match_here r (drop i s)")
    case None
    with "1.prems" have le: "\<not> length s < i" and rec: "exec_from r s (Suc i) = Some (k, n)"
      by (auto simp: exec_from.simps [of r s i] split: if_splits)
    from "1.IH" [OF le None rec] show ?thesis .
  next
    case (Some m)
    with "1.prems" show ?thesis
      by (auto simp: exec_from.simps [of r s i] split: if_splits)
  qed
qed

lemma matchAll_from_sound:
  "list_all (\<lambda>m. i \<le> fst m \<and> fst m + length (snd m) \<le> length s
       \<and> take (length (snd m)) (drop (fst m) s) = snd m \<and> matches r (snd m))
     (matchAll_from r s i)"
proof (induction r s i rule: matchAll_from.induct)
  case (1 r s i)
  show ?case
  proof (cases "exec_from r s i")
    case None
    then show ?thesis by (simp add: matchAll_from.simps [of r s i])
  next
    case (Some kn)
    obtain k n where kn: "kn = (k, n)" by (cases kn)
    define j where "j = (if n = 0 then Suc k else k + n)"
    from Some kn have ex: "exec_from r s i = Some (k, n)" by simp
    from exec_from_bounds [OF ex] have ik: "i \<le> k" and ks: "k \<le> length s" by simp_all
    from ik have ij: "i \<le> j" by (simp add: j_def)
    from exec_from_match [OF ex] have mh: "match_here r (drop k s) = Some n" .
    from match_here_sound [OF mh] ks
    have n: "n \<le> length s - k" and m: "matches r (take n (drop k s))" by simp_all
    from "1.IH" [OF Some kn [symmetric]]
    have ih: "list_all (\<lambda>m. j \<le> fst m \<and> fst m + length (snd m) \<le> length s
       \<and> take (length (snd m)) (drop (fst m) s) = snd m \<and> matches r (snd m))
     (matchAll_from r s j)" by (simp add: j_def)
    have mono: "list_all (\<lambda>m. i \<le> fst m \<and> fst m + length (snd m) \<le> length s
       \<and> take (length (snd m)) (drop (fst m) s) = snd m \<and> matches r (snd m))
     (matchAll_from r s j)"
      using ih ij by (auto simp: list_all_iff)
    have "matchAll_from r s i = (k, take n (drop k s)) # matchAll_from r s j"
      using ex by (simp add: matchAll_from.simps [of r s i] j_def)
    with mono ik ks n m show ?thesis by (simp add: min_absorb2)
  qed
qed

lemma matchAll_from_ordered:
  "sorted_wrt (\<lambda>a b. fst a + length (snd a) \<le> fst b) (matchAll_from r s i)"
proof (induction r s i rule: matchAll_from.induct)
  case (1 r s i)
  show ?case
  proof (cases "exec_from r s i")
    case None
    then show ?thesis by (simp add: matchAll_from.simps [of r s i])
  next
    case (Some kn)
    obtain k n where kn: "kn = (k, n)" by (cases kn)
    define j where "j = (if n = 0 then Suc k else k + n)"
    from Some kn have ex: "exec_from r s i = Some (k, n)" by simp
    have kj: "k + n \<le> j" by (simp add: j_def)
    from "1.IH" [OF Some kn [symmetric]]
    have ih: "sorted_wrt (\<lambda>a b. fst a + length (snd a) \<le> fst b) (matchAll_from r s j)"
      by (simp add: j_def)
    have later: "list_all (\<lambda>m. k + n \<le> fst m) (matchAll_from r s j)"
      using matchAll_from_sound [of j s r] kj by (auto simp: list_all_iff)
    have "matchAll_from r s i = (k, take n (drop k s)) # matchAll_from r s j"
      using ex by (simp add: matchAll_from.simps [of r s i] j_def)
    with ih later show ?thesis
      by (auto simp: list_all_iff)
  qed
qed

lemma match_here_complete:
  "matches r w \<Longrightarrow> match_here r (w @ rest) \<noteq> None"
proof (induction r w rule: matches.induct)
  case matches_Nil
  then show ?case by simp
next
  case (matches_Once a c ts w)
  then show ?case by auto
next
  case (matches_Last a c ts w)
  then show ?case by (auto split: option.splits)
next
  case (matches_More a c ts w)
  then show ?case by (auto split: option.splits)
qed

lemma exec_from_complete:
  "i \<le> j \<Longrightarrow> j \<le> length s \<Longrightarrow> match_here r (drop j s) \<noteq> None \<Longrightarrow>
   \<exists>k n. exec_from r s i = Some (k, n) \<and> k \<le> j"
proof (induction r s i rule: exec_from.induct)
  case (1 r s i)
  show ?case
  proof (cases "match_here r (drop i s)")
    case (Some n)
    with "1.prems" show ?thesis by (simp add: exec_from.simps [of r s i])
  next
    case None
    with "1.prems" have "i \<noteq> j" by auto
    with "1.prems" have ij: "Suc i \<le> j" by simp
    from "1.prems" have le: "\<not> length s < i" by simp
    from "1.IH" [OF le None ij "1.prems"(2,3)] None le show ?thesis
      by (simp add: exec_from.simps [of r s i])
  qed
qed

lemma matches_OneOrMore_split:
  "matches r w \<Longrightarrow> r = (a, OneOrMore) # ts \<Longrightarrow>
   \<exists>u v. w = u @ v \<and> u \<noteq> [] \<and> list_all (atom_matches a) u \<and> matches ts v"
proof (induction r w rule: matches.induct)
  case (matches_Last a' c ts' w)
  then have "c # w = [c] @ w \<and> [c] \<noteq> [] \<and> list_all (atom_matches a) [c] \<and> matches ts w"
    by simp
  then show ?case by blast
next
  case (matches_More a' c ts' w)
  then obtain u v where "w = u @ v" "u \<noteq> []" "list_all (atom_matches a) u" "matches ts v"
    by auto
  with matches_More.hyps(1) matches_More.prems
  have "c # w = (c # u) @ v \<and> c # u \<noteq> [] \<and> list_all (atom_matches a) (c # u) \<and> matches ts v"
    by simp
  then show ?case by blast
qed simp_all

lemma matches_Once_split:
  "matches ((a, Once) # ts) w \<Longrightarrow> \<exists>c v. w = c # v \<and> atom_matches a c \<and> matches ts v"
  by (erule matches.cases) auto

lemma matches_Nil_iff: "matches [] w \<Longrightarrow> w = []"
  by (erule matches.cases) auto

lemma match_here_greedy:
  assumes "u \<noteq> []" and "list_all (atom_matches a) u"
    and "rest = [] \<or> \<not> atom_matches a (hd rest)"
    and "match_here ts rest = Some n"
  shows "match_here ((a, OneOrMore) # ts) (u @ rest) = Some (length u + n)"
  using assms(1,2)
proof (induction u)
  case Nil
  then show ?case by simp
next
  case (Cons c u)
  show ?case
  proof (cases "u = []")
    case True
    have "match_here ((a, OneOrMore) # ts) rest = None"
      using assms(3) by (cases rest) auto
    with Cons.prems True assms(4) show ?thesis by simp
  next
    case False
    with Cons have "match_here ((a, OneOrMore) # ts) (u @ rest) = Some (length u + n)" by simp
    with Cons.prems show ?thesis by simp
  qed
qed

lemma symbol_class_iff:
  "atom_matches symbol_class c \<longleftrightarrow> c \<noteq> 0x2B \<and> c \<noteq> 0x20 \<and> c \<noteq> 0x3A"
  by (auto simp: symbol_class_def in_ranges_def)

lemma hex_class_iff:
  "atom_matches hex_class c \<longleftrightarrow> (0x30 \<le> c \<and> c \<le> 0x39) \<or> (0x61 \<le> c \<and> c \<le> 0x66)"
  by (auto simp: hex_class_def in_ranges_def)

lemma frame_shape:
  assumes "matches address_regex w"
  shows "\<exists>sym off len. w = sym @ js ''+0x'' @ off @ js ''/0x'' @ len
           \<and> sym \<noteq> [] \<and> list_all (atom_matches symbol_class) sym
           \<and> off \<noteq> [] \<and> list_all (atom_matches hex_class) off
           \<and> len \<noteq> [] \<and> list_all (atom_matches hex_class) len"
proof -
  from matches_OneOrMore_split [OF assms [unfolded address_regex_def] refl]
  obtain sym v1 where w: "w = sym @ v1" and sym: "sym \<noteq> []" "list_all (atom_matches symbol_class) sym"
    and m1: "matches [(Lit 0x2B, Once), (Lit 0x30, Once), (Lit 0x78, Once), (hex_class, OneOrMore),
      (Lit 0x2F, Once), (Lit 0x30, Once), (Lit 0x78, Once), (hex_class, OneOrMore)] v1"
    by blast
  from matches_Once_split [OF m1] obtain v2 where v1: "v1 = 0x2B # v2"
    and m2: "matches [(Lit 0x30, Once), (Lit 0x78, Once), (hex_class, OneOrMore),
      (Lit 0x2F, Once), (Lit 0x30, Once), (Lit 0x78, Once), (hex_class, OneOrMore)] v2"
    by auto
  from matches_Once_split [OF m2] obtain v3 where v2: "v2 = 0x30 # v3"
    and m3: "matches [(Lit 0x78, Once), (hex_class, OneOrMore),
      (Lit 0x2F, Once), (Lit 0x30, Once), (Lit 0x78, Once), (hex_class, OneOrMore)] v3"
    by auto
  from matches_Once_split [OF m3] obtain v4 where v3: "v3 = 0x78 # v4"
    and m4: "matches [(hex_class, OneOrMore),
      (Lit 0x2F, Once), (Lit 0x30, Once), (Lit 0x78, Once), (hex_class, OneOrMore)] v4"
    by auto
  from matches_OneOrMore_split [OF m4 refl]
  obtain off v5 where v4: "v4 = off @ v5" and off: "off \<noteq> []" "list_all (atom_matches hex_class) off"
    and m5: "matches [(Lit 0x2F, Once), (Lit 0x30, Once), (Lit 0x78, Once), (hex_class, OneOrMore)] v5"
    by blast
  from matches_Once_split [OF m5] obtain v6 where v5: "v5 = 0x2F # v6"
    and m6: "matches [(Lit 0x30, Once), (Lit 0x78, Once), (hex_class, OneOrMore)] v6"
    by auto
  from matches_Once_split [OF m6] obtain v7 where v6: "v6 = 0x30 # v7"
    and m7: "matches [(Lit 0x78, Once), (hex_class, OneOrMore)] v7"
    by auto
  from matches_Once_split [OF m7] obtain v8 where v7: "v7 = 0x78 # v8"
    and m8: "matches [(hex_class, OneOrMore)] v8"
    by auto
  from matches_OneOrMore_split [OF m8 refl]
  obtain len v9 where v8: "v8 = len @ v9" and len: "len \<noteq> []" "list_all (atom_matches hex_class) len"
    and m9: "matches [] v9"
    by blast
  from matches_Nil_iff [OF m9] have v9: "v9 = []" .
  have "w = sym @ js ''+0x'' @ off @ js ''/0x'' @ len"
    by (simp add: w v1 v2 v3 v4 v5 v6 v7 v8 v9 js_def)
  with sym off len show ?thesis by blast
qed

lemma frame_match:
  assumes "matches address_regex w"
    and "post = [] \<or> \<not> atom_matches hex_class (hd post)"
  shows "match_here address_regex (w @ post) = Some (length w)"
proof -
  from frame_shape [OF assms(1)]
  obtain sym off len where w: "w = sym @ js ''+0x'' @ off @ js ''/0x'' @ len"
    and sym: "sym \<noteq> []" "list_all (atom_matches symbol_class) sym"
    and off: "off \<noteq> []" "list_all (atom_matches hex_class) off"
    and len: "len \<noteq> []" "list_all (atom_matches hex_class) len"
    by blast
  have m0: "match_here [] post = Some 0" by simp
  from match_here_greedy [OF len assms(2) m0]
  have m1: "match_here [(hex_class, OneOrMore)] (len @ post) = Some (length len)" by simp
  then have m2: "match_here [(Lit 0x2F, Once), (Lit 0x30, Once), (Lit 0x78, Once),
        (hex_class, OneOrMore)] (js ''/0x'' @ len @ post) = Some (3 + length len)"
    by (simp add: js_def)
  have "\<not> atom_matches hex_class (hd (js ''/0x'' @ len @ post))"
    by (simp add: js_def hex_class_iff)
  then have d1: "js ''/0x'' @ len @ post = [] \<or> \<not> atom_matches hex_class (hd (js ''/0x'' @ len @ post))"
    by simp
  from match_here_greedy [OF off d1 m2]
  have m3: "match_here [(hex_class, OneOrMore), (Lit 0x2F, Once), (Lit 0x30, Once),
        (Lit 0x78, Once), (hex_class, OneOrMore)] (off @ js ''/0x'' @ len @ post) =
      Some (length off + (3 + length len))" .
  then have m4: "match_here [(Lit 0x2B, Once), (Lit 0x30, Once), (Lit 0x78, Once),
        (hex_class, OneOrMore), (Lit 0x2F, Once), (Lit 0x30, Once),
        (Lit 0x78, Once), (hex_class, OneOrMore)] (js ''+0x'' @ off @ js ''/0x'' @ len @ post) =
      Some (3 + (length off + (3 + length len)))"
    by (simp add: js_def)
  have "\<not> atom_matches symbol_class (hd (js ''+0x'' @ off @ js ''/0x'' @ len @ post))"
    by (simp add: js_def symbol_class_iff)
  then have d2: "js ''+0x'' @ off @ js ''/0x'' @ len @ post = [] \<or>
      \<not> atom_matches symbol_class (hd (js ''+0x'' @ off @ js ''/0x'' @ len @ post))"
    by simp
  from match_here_greedy [OF sym d2 m4]
  have "match_here address_regex (sym @ js ''+0x'' @ off @ js ''/0x'' @ len @ post) =
      Some (length sym + (3 + (length off + (3 + length len))))"
    by (simp add: address_regex_def)
  then show ?thesis by (simp add: w js_def)
qed

lemma frame_no_delimiter:
  assumes "matches address_regex w"
  shows "w \<noteq> [] \<and> 0x20 \<notin> set w \<and> 0x3A \<notin> set w"
proof -
  from frame_shape [OF assms]
  obtain sym off len where w: "w = sym @ js ''+0x'' @ off @ js ''/0x'' @ len"
    and sym: "sym \<noteq> []" "list_all (atom_matches symbol_class) sym"
    and off: "list_all (atom_matches hex_class) off"
    and len: "list_all (atom_matches hex_class) len"
    by blast
  have h: "\<And>c. atom_matches hex_class c \<Longrightarrow> c \<noteq> 0x20 \<and> c \<noteq> 0x3A"
    by (auto simp: hex_class_iff word_le_nat_alt)
  from sym off len show ?thesis
    by (auto simp: w js_def list_all_iff symbol_class_iff dest: h)
qed

lemma matchAll_from_finds:
  assumes here: "match_here r (drop p s) = Some m" and p: "p \<le> length s"
    and before: "\<And>k n. k < p \<Longrightarrow> match_here r (drop k s) = Some n \<Longrightarrow> 0 < n \<and> k + n \<le> p"
  shows "i \<le> p \<Longrightarrow> (p, take m (drop p s)) \<in> set (matchAll_from r s i)"
proof (induction "p - i" arbitrary: i rule: less_induct)
  case less
  from here have "match_here r (drop p s) \<noteq> None" by simp
  from exec_from_complete [OF less.prems p this]
  obtain k n where ex: "exec_from r s i = Some (k, n)" and kp: "k \<le> p" by blast
  from exec_from_bounds [OF ex] have ik: "i \<le> k" by simp
  from exec_from_match [OF ex] have mk: "match_here r (drop k s) = Some n" .
  have unfold: "matchAll_from r s i =
      (k, take n (drop k s)) # matchAll_from r s (if n = 0 then Suc k else k + n)"
    using ex by (simp add: matchAll_from.simps [of r s i])
  show ?case
  proof (cases "k = p")
    case True
    with mk here have "n = m" by simp
    with True unfold show ?thesis by simp
  next
    case False
    with kp have lt: "k < p" by simp
    from before [OF lt mk] have n: "0 < n" and kn: "k + n \<le> p" by simp_all
    from n ik kn have "p - (k + n) < p - i" by simp
    from less.hyps [OF this kn] n unfold show ?thesis by simp
  qed
qed

lemma frame_linked:
  assumes frame: "matches address_regex frame"
    and pre: "pre = [] \<or> last pre = 0x20 \<or> last pre = 0x3A"
    and post: "post = [] \<or> \<not> atom_matches hex_class (hd post)"
  shows "(length pre, frame) \<in> set (matchAll address_regex (pre @ frame @ post))"
proof -
  define s where "s = pre @ frame @ post"
  have drop_pre: "drop (length pre) s = frame @ post" by (simp add: s_def)
  from frame_match [OF frame post]
  have here: "match_here address_regex (drop (length pre) s) = Some (length frame)"
    by (simp add: drop_pre)
  have p: "length pre \<le> length s" by (simp add: s_def)
  have before: "0 < n \<and> k + n \<le> length pre"
    if k: "k < length pre" and mk: "match_here address_regex (drop k s) = Some n" for k n
  proof -
    from match_here_sound [OF mk]
    have n: "n \<le> length s - k" and m: "matches address_regex (take n (drop k s))"
      by simp_all
    from frame_no_delimiter [OF m]
    have ne: "take n (drop k s) \<noteq> []" and sp: "0x20 \<notin> set (take n (drop k s))"
      and co: "0x3A \<notin> set (take n (drop k s))" by simp_all
    from ne have pos: "0 < n" by (cases n) simp_all
    have "k + n \<le> length pre"
    proof (rule ccontr)
      assume "\<not> k + n \<le> length pre"
      then have far: "length pre - Suc k < n" using k by simp
      from k have ne_pre: "pre \<noteq> []" by auto
      have len: "length (take n (drop k s)) = n" using n by simp
      have idx: "length pre - Suc k < length (take n (drop k s))"
        using far by (simp only: len)
      have in_s: "k + (length pre - Suc k) < length s" using far n by simp
      have "take n (drop k s) ! (length pre - Suc k) = drop k s ! (length pre - Suc k)"
        using far by simp
      also have "\<dots> = s ! (k + (length pre - Suc k))"
        using in_s by simp
      also have "k + (length pre - Suc k) = length pre - 1" using k by simp
      also have "s ! (length pre - 1) = pre ! (length pre - 1)"
        using ne_pre by (simp add: s_def nth_append)
      also have "\<dots> = last pre" using ne_pre by (simp add: last_conv_nth)
      finally have "last pre \<in> set (take n (drop k s))"
        using idx by (metis nth_mem)
      with pre ne_pre sp co show False by auto
    qed
    with pos show ?thesis by simp
  qed
  from matchAll_from_finds [OF here p before, of 0]
  have "(length pre, take (length frame) (drop (length pre) s))
      \<in> set (matchAll_from address_regex s 0)" by simp
  then show ?thesis by (simp add: matchAll_def drop_pre) (simp add: s_def)
qed

lemma no_match_no_frame:
  "matchAll r s = [] \<longleftrightarrow> \<not> (\<exists>pre w post. s = pre @ w @ post \<and> matches r w)"
proof
  assume empty: "matchAll r s = []"
  show "\<not> (\<exists>pre w post. s = pre @ w @ post \<and> matches r w)"
  proof
    assume "\<exists>pre w post. s = pre @ w @ post \<and> matches r w"
    then obtain pre w post where s: "s = pre @ w @ post" and m: "matches r w" by blast
    from match_here_complete [OF m, of post]
    have "match_here r (drop (length pre) s) \<noteq> None" by (simp add: s)
    from exec_from_complete [OF _ _ this, of 0]
    obtain k n where "exec_from r s 0 = Some (k, n)" by (auto simp: s)
    then have "matchAll r s \<noteq> []"
      by (simp add: matchAll_def matchAll_from.simps [of r s 0])
    with empty show False by simp
  qed
next
  assume none: "\<not> (\<exists>pre w post. s = pre @ w @ post \<and> matches r w)"
  show "matchAll r s = []"
  proof (rule ccontr)
    assume "matchAll r s \<noteq> []"
    then obtain k n where ex: "exec_from r s 0 = Some (k, n)"
      by (auto simp: matchAll_def matchAll_from.simps [of r s 0] split: option.splits)
    from exec_from_match [OF ex] have "match_here r (drop k s) = Some n" .
    from match_here_sound [OF this] have m: "matches r (take n (drop k s))" by simp
    have "s = take k s @ take n (drop k s) @ drop n (drop k s)"
      by (simp only: append_take_drop_id)
    with m none show False by blast
  qed
qed

text \<open>
  Claim C1. For every terminal line, \<open>provideTerminalLinks\<close> returns exactly one link
  per match of the regular expression, in the order of the matches; each link carries the
  start offset of its match, the length of the matched text, the tooltip and the matched
  text itself. The matched text is the substring of the line at that offset, it belongs
  to the language of the pattern, and successive links do not overlap. A line gets no
  link exactly when none of its substrings belongs to that language. A frame that
  stands at the start of the line or after a space or a colon, and at the end of the line
  or before a character that is no hexadecimal digit, yields a link whose text is that
  frame; \<^verbatim>\<open>__sys_sendmsg+0x284/0x370\<close> is such a frame, and a backtrace line holding it
  yields one link, with that text.
\<close>

theorem provideTerminalLinks_one_link_per_match:
  "provideTerminalLinks target line =
     map (\<lambda>m. \<lparr> startIndex = fst m, length' = length (snd m),
                 tooltip = js ''addr2line -e '' @ target @ js '' this address'',
                 link = snd m \<rparr>)
         (matchAll address_regex line)
   \<and> list_all (\<lambda>l. length' l = length (link l)
               \<and> startIndex l + length' l \<le> length line
               \<and> take (length' l) (drop (startIndex l) line) = link l
               \<and> matches address_regex (link l))
        (provideTerminalLinks target line)
   \<and> sorted_wrt (\<lambda>a b. startIndex a + length' a \<le> startIndex b)
        (provideTerminalLinks target line)
   \<and> (provideTerminalLinks target line = [] \<longleftrightarrow>
        \<not> (\<exists>pre w post. line = pre @ w @ post \<and> matches address_regex w))
   \<and> (matches address_regex frame
        \<and> (pre = [] \<or> last pre = 0x20 \<or> last pre = 0x3A)
        \<and> (post = [] \<or> \<not> atom_matches hex_class (hd post)) \<longrightarrow>
        \<lparr> startIndex = length pre, length' = length frame,
          tooltip = js ''addr2line -e '' @ target @ js '' this address'',
          link = frame \<rparr> \<in> set (provideTerminalLinks target (pre @ frame @ post)))
   \<and> matches address_regex (js ''__sys_sendmsg+0x284/0x370'')
   \<and> provideTerminalLinks (js ''vmlinux'') (js ''[   12.34] __sys_sendmsg+0x284/0x370'') =
       [\<lparr> startIndex = 11, length' = 25,
          tooltip = js ''addr2line -e vmlinux this address'',
          link = js ''__sys_sendmsg+0x284/0x370'' \<rparr>]"
proof -
  have eq: "\<And>line. provideTerminalLinks target line =
      map (link_of_match target) (matchAll address_regex line)"
    by (simp add: provideTerminalLinks_def foldl_push_link)
  have a: "list_all (\<lambda>l. length' l = length (link l)
               \<and> startIndex l + length' l \<le> length line
               \<and> take (length' l) (drop (startIndex l) line) = link l
               \<and> matches address_regex (link l))
        (provideTerminalLinks target line)"
    using matchAll_from_sound [of 0 line address_regex]
    by (simp add: eq matchAll_def list_all_iff link_of_match_def)
  have b: "sorted_wrt (\<lambda>a b. startIndex a + length' a \<le> startIndex b)
        (provideTerminalLinks target line)"
    using matchAll_from_ordered [of address_regex line 0]
    by (simp add: eq matchAll_def sorted_wrt_map link_of_match_def)
  have c: "provideTerminalLinks (js ''vmlinux'') (js ''[   12.34] __sys_sendmsg+0x284/0x370'') =
       [\<lparr> startIndex = 11, length' = 25,
          tooltip = js ''addr2line -e vmlinux this address'',
          link = js ''__sys_sendmsg+0x284/0x370'' \<rparr>]"
    by code_simp
  have d: "provideTerminalLinks target line = [] \<longleftrightarrow>
        \<not> (\<exists>pre w post. line = pre @ w @ post \<and> matches address_regex w)"
    using no_match_no_frame [of address_regex line] by (simp add: eq)
  have e: "matches address_regex frame
        \<and> (pre = [] \<or> last pre = 0x20 \<or> last pre = 0x3A)
        \<and> (post = [] \<or> \<not> atom_matches hex_class (hd post)) \<longrightarrow>
        \<lparr> startIndex = length pre, length' = length frame,
          tooltip = js ''addr2line -e '' @ target @ js '' this address'',
          link = frame \<rparr> \<in> set (provideTerminalLinks target (pre @ frame @ post))"
  proof
    assume h: "matches address_regex frame
        \<and> (pre = [] \<or> last pre = 0x20 \<or> last pre = 0x3A)
        \<and> (post = [] \<or> \<not> atom_matches hex_class (hd post))"
    then have "(length pre, frame) \<in> set (matchAll address_regex (pre @ frame @ post))"
      by (intro frame_linked) simp_all
    then have "link_of_match target (length pre, frame)
        \<in> set (provideTerminalLinks target (pre @ frame @ post))"
      unfolding eq by (simp only: set_map) (rule imageI)
    then show "\<lparr> startIndex = length pre, length' = length frame,
          tooltip = js ''addr2line -e '' @ target @ js '' this address'',
          link = frame \<rparr> \<in> set (provideTerminalLinks target (pre @ frame @ post))"
      by (simp add: link_of_match_def)
  qed
  have "match_here address_regex (js ''__sys_sendmsg+0x284/0x370'') = Some 25"
    by code_simp
  from match_here_sound [OF this]
  have f: "matches address_regex (js ''__sys_sendmsg+0x284/0x370'')"
    by (simp add: js_def)
  have eq': "provideTerminalLinks target line =
     map (\<lambda>m. \<lparr> startIndex = fst m, length' = length (snd m),
                 tooltip = js ''addr2line -e '' @ target @ js '' this address'',
                 link = snd m \<rparr>)
         (matchAll address_regex line)"
    unfolding eq by (rule map_cong) (simp_all add: link_of_match_def)
  from eq' a b d e f c show ?thesis
    by (intro conjI)
qed

theorem provideTerminalLinks_one_link_per_match_witness:
  "matches address_regex (js ''__sys_sendmsg+0x284/0x370'')
   \<and> last (js ''[   12.34] '') = 0x20
   \<and> \<lparr> startIndex = 11, length' = 25,
       tooltip = js ''addr2line -e '' @ js ''vmlinux'' @ js '' this address'',
       link = js ''__sys_sendmsg+0x284/0x370'' \<rparr>
     \<in> set (provideTerminalLinks (js ''vmlinux'')
              (js ''[   12.34] '' @ js ''__sys_sendmsg+0x284/0x370'' @ []))"
proof -
  have sp: "last (js ''[   12.34] '') = 0x20" by (simp add: js_def)
  have len: "length (js ''[   12.34] '') = 11" "length (js ''__sys_sendmsg+0x284/0x370'') = 25"
    by (simp_all add: js_def)
  from provideTerminalLinks_one_link_per_match
    [of "js ''vmlinux''" "[]" "js ''__sys_sendmsg+0x284/0x370''" "js ''[   12.34] ''" "[]"]
    sp
  show ?thesis by (simp only: len) blast
qed

section \<open>Properties of the output parser\<close>

lemma split_acc_not_Nil: "split_acc sep cur s \<noteq> []"
  by (induction s arbitrary: cur) simp_all

lemma split_not_Nil: "split sep s \<noteq> []"
  by (simp add: split_def split_acc_not_Nil)

lemma join_Cons: "ps \<noteq> [] \<Longrightarrow> join sep (p # ps) = p @ sep # join sep ps"
  by (cases ps) simp_all

lemma join_split_acc: "join sep (split_acc sep cur s) = cur @ s"
proof (induction s arbitrary: cur)
  case Nil
  then show ?case by simp
next
  case (Cons c cs)
  then show ?case by (simp add: join_Cons split_acc_not_Nil)
qed

lemma join_split: "join sep (split sep s) = s"
  by (simp add: split_def join_split_acc)

lemma split_acc_no_sep:
  "sep \<notin> set cur \<Longrightarrow> list_all (\<lambda>p. sep \<notin> set p) (split_acc sep cur s)"
  by (induction s arbitrary: cur) simp_all

lemma split_no_sep: "list_all (\<lambda>p. sep \<notin> set p) (split sep s)"
  by (simp add: split_def split_acc_no_sep)

lemma length_split_acc: "length (split_acc sep cur s) = Suc (count_list s sep)"
  by (induction s arbitrary: cur) simp_all

lemma length_split: "length (split sep s) = Suc (count_list s sep)"
  by (simp add: split_def length_split_acc)

lemma foldl_parse_line:
  "foldl (parse_line h) acc ls =
     \<lparr> quickPickItems = quickPickItems acc @ map (item_of_line h) ls,
       realPaths = realPaths acc @
         map (\<lambda>l. path_resolve h (relativeTo h) (first_element (split 0x3A (trim l)))) ls,
       lines = lines acc @ map (\<lambda>l. line_number (element (split 0x3A (trim l)) 1)) ls \<rparr>"
  by (induction ls arbitrary: acc)
     (simp_all add: parse_line_def item_of_line_def line_number_def Let_def)

lemma parse_output_eq:
  "parse_output h output =
     \<lparr> quickPickItems = map (item_of_line h) (split 0x0A (trim output)),
       realPaths = map (\<lambda>l. path_resolve h (relativeTo h) (first_element (split 0x3A (trim l))))
                     (split 0x0A (trim output)),
       lines = map (\<lambda>l. line_number (element (split 0x3A (trim l)) 1))
                 (split 0x0A (trim output)) \<rparr>"
  by (simp add: parse_output_def foldl_parse_line)

lemma zip_map_same: "zip (map f xs) (map g xs) = map (\<lambda>x. (f x, g x)) xs"
  by (induction xs) simp_all

lemma zip_parse_output:
  "zip (realPaths (parse_output h output)) (lines (parse_output h output)) =
     resolution_result h output"
  by (simp add: parse_output_eq resolution_result_def zip_map_same)

lemma trim_decomp:
  "s = takeWhile is_js_whitespace s @ trim s
         @ rev (takeWhile is_js_whitespace (rev (dropWhile is_js_whitespace s)))"
proof -
  let ?d = "dropWhile is_js_whitespace s"
  have "trim s @ rev (takeWhile is_js_whitespace (rev ?d)) =
      rev (takeWhile is_js_whitespace (rev ?d) @ dropWhile is_js_whitespace (rev ?d))"
    by (simp only: trim_def rev_append)
  also have "\<dots> = ?d"
    by (simp only: takeWhile_dropWhile_id rev_rev_ident)
  finally have "takeWhile is_js_whitespace s @ trim s @ rev (takeWhile is_js_whitespace (rev ?d))
      = takeWhile is_js_whitespace s @ ?d"
    by simp
  then show ?thesis by simp
qed

lemma split_acc_unfold:
  "split_acc sep cur s =
     (cur @ takeWhile (\<lambda>c. c \<noteq> sep) s) #
       (case dropWhile (\<lambda>c. c \<noteq> sep) s of [] \<Rightarrow> [] | _ # rest \<Rightarrow> split_acc sep [] rest)"
  by (induction s arbitrary: cur) simp_all

lemma element_split_1:
  "element (split 0x3A s) (Suc 0) =
     map_option (takeWhile (\<lambda>c. c \<noteq> 0x3A)) (after_first_colon s)"
proof (cases "dropWhile (\<lambda>c. c \<noteq> (0x3A :: jschar)) s")
  case Nil
  have "split 0x3A s = [takeWhile (\<lambda>c. c \<noteq> 0x3A) s]"
    unfolding split_def by (subst split_acc_unfold) (simp only: Nil list.case append_Nil)
  then show ?thesis
    by (simp add: element_def after_first_colon_def Nil)
next
  case (Cons c rest)
  have "split 0x3A s = takeWhile (\<lambda>c. c \<noteq> 0x3A) s # split_acc 0x3A [] rest"
    unfolding split_def by (subst split_acc_unfold) (simp only: Cons list.case append_Nil)
  also have "split_acc 0x3A [] rest = takeWhile (\<lambda>c. c \<noteq> 0x3A) rest #
       (case dropWhile (\<lambda>c. c \<noteq> 0x3A) rest of [] \<Rightarrow> []
        | _ # rest' \<Rightarrow> split_acc 0x3A [] rest')"
    by (subst split_acc_unfold) simp
  finally show ?thesis
    by (simp add: element_def after_first_colon_def Cons)
qed

lemma colon_not_whitespace: "\<not> is_js_whitespace 0x3A"
  by (simp add: is_js_whitespace_def)

lemma digit_not_whitespace: "is_js_whitespace c \<Longrightarrow> \<not> is_digit c"
  by (auto simp: is_js_whitespace_def is_digit_def word_le_nat_alt)

lemma digit_not_colon: "is_digit c \<Longrightarrow> c \<noteq> 0x3A"
  by (auto simp: is_digit_def)

lemma takeWhile_takeWhile_imp:
  "(\<And>x. P x \<Longrightarrow> Q x) \<Longrightarrow> takeWhile P (takeWhile Q xs) = takeWhile P xs"
  by (induction xs) auto

lemma dropWhile_takeWhile_imp:
  "(\<And>x. P x \<Longrightarrow> Q x) \<Longrightarrow> dropWhile P (takeWhile Q xs) = takeWhile Q (dropWhile P xs)"
  by (induction xs) auto

lemma parseInt_takeWhile_colon:
  "parseInt (Some (takeWhile (\<lambda>c. c \<noteq> 0x3A) r)) = parseInt (Some r)"
proof -
  let ?P = "\<lambda>c::jschar. c \<noteq> 0x3A"
  have ts: "trimStart (takeWhile ?P r) = takeWhile ?P (trimStart r)"
    unfolding trimStart_def
    by (rule dropWhile_takeWhile_imp) (auto simp: colon_not_whitespace)
  have dg: "\<And>xs. takeWhile is_digit (takeWhile ?P xs) = takeWhile is_digit xs"
    by (rule takeWhile_takeWhile_imp) (rule digit_not_colon)
  show ?thesis
  proof (cases "trimStart r")
    case Nil
    then show ?thesis by (simp add: parseInt_def ToString_def ts)
  next
    case (Cons c cs)
    then show ?thesis
      by (cases "c = 0x3A") (auto simp: parseInt_def ToString_def ts Let_def dg is_digit_def)
  qed
qed

lemma parseInt_append_whitespace:
  assumes "list_all is_js_whitespace post"
  shows "parseInt (Some (r @ post)) = parseInt (Some r)"
proof -
  have tw: "\<And>xs. takeWhile is_digit (xs @ post) = takeWhile is_digit xs"
  proof -
    fix xs
    have "takeWhile is_digit post = []"
      using assms by (cases post) (auto dest: digit_not_whitespace)
    then show "takeWhile is_digit (xs @ post) = takeWhile is_digit xs"
      by (induction xs) simp_all
  qed
  have dw: "dropWhile is_js_whitespace post = []"
    using assms by (simp add: list_all_iff)
  show ?thesis
  proof (cases "list_all is_js_whitespace r")
    case True
    then have "trimStart (r @ post) = []" "trimStart r = []"
      using assms by (simp_all add: trimStart_def list_all_iff)
    then show ?thesis by (simp add: parseInt_def ToString_def)
  next
    case False
    then have ts: "trimStart (r @ post) = trimStart r @ post"
      by (auto simp: trimStart_def list_all_iff dropWhile_append1)
    from False obtain c cs where cs: "trimStart r = c # cs"
      by (cases "trimStart r") (auto simp: trimStart_def list_all_iff)
    show ?thesis
      by (simp add: parseInt_def ToString_def ts cs Let_def tw tw [of "c # cs", simplified])
  qed
qed


lemma whitespace_not_colon: "is_js_whitespace c \<Longrightarrow> c \<noteq> 0x3A"
  using colon_not_whitespace by auto

lemma after_first_colon_prepend:
  "list_all is_js_whitespace pre \<Longrightarrow> after_first_colon (pre @ s) = after_first_colon s"
  by (simp add: after_first_colon_def list_all_iff dropWhile_append2 whitespace_not_colon)

lemma after_first_colon_append:
  assumes "list_all is_js_whitespace post"
  shows "after_first_colon (s @ post) =
           (case after_first_colon s of None \<Rightarrow> None | Some r \<Rightarrow> Some (r @ post))"
proof (cases "dropWhile (\<lambda>c. c \<noteq> (0x3A :: jschar)) s")
  case Nil
  then have all: "\<And>x. x \<in> set s \<Longrightarrow> x \<noteq> 0x3A" by simp
  have "dropWhile (\<lambda>c. c \<noteq> (0x3A :: jschar)) (s @ post) = dropWhile (\<lambda>c. c \<noteq> 0x3A) post"
    using all by (simp add: dropWhile_append2)
  also have "\<dots> = []"
    using assms by (simp add: list_all_iff whitespace_not_colon)
  finally have "dropWhile (\<lambda>c. c \<noteq> (0x3A :: jschar)) (s @ post) = []" .
  then show ?thesis
    by (simp only: after_first_colon_def Nil list.case option.case)
next
  case (Cons c rest)
  then have "dropWhile (\<lambda>c. c \<noteq> (0x3A :: jschar)) (s @ post) = (c # rest) @ post"
    by (metis dropWhile_append1 dropWhile_eq_Nil_conv list.distinct(1))
  with Cons show ?thesis by (simp add: after_first_colon_def)
qed

lemma parseInt_after_first_colon_trim:
  "parseInt (after_first_colon (trim l)) = parseInt (after_first_colon l)"
proof -
  let ?pre = "takeWhile is_js_whitespace l"
  let ?post = "rev (takeWhile is_js_whitespace (rev (dropWhile is_js_whitespace l)))"
  have pre: "list_all is_js_whitespace ?pre"
    by (simp add: list_all_iff) (meson set_takeWhileD)
  have post: "list_all is_js_whitespace ?post"
    by (simp add: list_all_iff) (meson set_takeWhileD)
  have "after_first_colon l = after_first_colon (?pre @ trim l @ ?post)"
    using trim_decomp [of l] by simp
  also have "\<dots> = after_first_colon (trim l @ ?post)"
    by (rule after_first_colon_prepend [OF pre])
  also have "\<dots> = (case after_first_colon (trim l) of None \<Rightarrow> None
                         | Some r \<Rightarrow> Some (r @ ?post))"
    by (rule after_first_colon_append [OF post])
  finally have eq: "after_first_colon l =
      (case after_first_colon (trim l) of None \<Rightarrow> None | Some r \<Rightarrow> Some (r @ ?post))" .
  show ?thesis
  proof (cases "after_first_colon (trim l)")
    case None
    with eq show ?thesis by simp
  next
    case (Some r)
    with eq have "after_first_colon l = Some (r @ ?post)" by simp
    with Some show ?thesis
      by (simp add: parseInt_append_whitespace [OF post])
  qed
qed

lemma parseInt_lineStr:
  "parseInt (element (split 0x3A (trim l)) (Suc 0)) = parseInt (after_first_colon l)"
proof -
  have "parseInt (element (split 0x3A (trim l)) (Suc 0)) =
      parseInt (after_first_colon (trim l))"
    by (cases "after_first_colon (trim l)")
       (simp_all add: element_split_1 parseInt_takeWhile_colon)
  then show ?thesis by (simp add: parseInt_after_first_colon_trim)
qed

lemma parseInt_undefined: "parseInt None = None"
  by (simp add: parseInt_def ToString_def js_def trimStart_def is_js_whitespace_def is_digit_def)


lemma resolution_result_not_Nil: "resolution_result h output \<noteq> []"
  by (simp add: resolution_result_def split_not_Nil)

lemma length_parse_output:
  "length (quickPickItems (parse_output h output)) = length (resolution_result h output)"
  "length (realPaths (parse_output h output)) = length (resolution_result h output)"
  "length (lines (parse_output h output)) = length (resolution_result h output)"
  by (simp_all add: parse_output_eq resolution_result_def)

lemma nth_resolution_result:
  assumes "i < length (resolution_result h output)"
  shows "resolution_result h output ! i =
           (realPaths (parse_output h output) ! i, lines (parse_output h output) ! i)"
proof -
  have "resolution_result h output ! i =
      zip (realPaths (parse_output h output)) (lines (parse_output h output)) ! i"
    by (simp only: zip_parse_output)
  also have "\<dots> = (realPaths (parse_output h output) ! i, lines (parse_output h output) ! i)"
    using assms by (intro nth_zip) (simp_all only: length_parse_output)
  finally show ?thesis .
qed


text \<open>
  Claim C3. The resolver's output is parsed by string splitting only: the trimmed output
  is split on newline characters, each resulting line is trimmed and split on the colon,
  its first part is the file path and its second part the line-number string, and the
  three arrays hold one entry per output line, in the order of the lines. Splitting loses
  nothing: the lines joined by newlines are the trimmed output, the parts of a line
  joined by colons are the trimmed line, and no line holds a newline.
\<close>

theorem parse_output_split_in_order:
  "parse_output h output =
     \<lparr> quickPickItems =
         map (\<lambda>l. \<lparr> label = path_relative h (relativeTo h)
                       (path_resolve h (relativeTo h) (first_element (split 0x3A (trim l)))),
                    description = element (split 0x3A (trim l)) 1 \<rparr>)
             (split 0x0A (trim output)),
       realPaths =
         map (\<lambda>l. path_resolve h (relativeTo h) (first_element (split 0x3A (trim l))))
             (split 0x0A (trim output)),
       lines =
         map (\<lambda>l. line_number (element (split 0x3A (trim l)) 1))
             (split 0x0A (trim output)) \<rparr>
   \<and> zip (realPaths (parse_output h output)) (lines (parse_output h output)) =
       resolution_result h output
   \<and> join 0x0A (split 0x0A (trim output)) = trim output
   \<and> list_all (\<lambda>l. 0x0A \<notin> set l) (split 0x0A (trim output))
   \<and> length (resolution_result h output) = Suc (count_list (trim output) 0x0A)
   \<and> join 0x3A (split 0x3A (trim outputLine)) = trim outputLine
   \<and> list_all (\<lambda>part. 0x3A \<notin> set part) (split 0x3A (trim outputLine))"
proof -
  have items: "map (item_of_line h) (split 0x0A (trim output)) =
        map (\<lambda>l. \<lparr> label = path_relative h (relativeTo h)
                       (path_resolve h (relativeTo h) (first_element (split 0x3A (trim l)))),
                    description = element (split 0x3A (trim l)) 1 \<rparr>)
             (split 0x0A (trim output))"
    by (rule map_cong) (simp_all add: item_of_line_def)
  have len: "length (resolution_result h output) = Suc (count_list (trim output) 0x0A)"
    by (simp add: resolution_result_def length_split)
  show ?thesis
    using parse_output_eq [of h "output", unfolded items] zip_parse_output [of h "output"] len
      join_split [of "0x0A" "trim output"] split_no_sep [of "0x0A" "trim output"]
      join_split [of "0x3A" "trim outputLine"] split_no_sep [of "0x3A" "trim outputLine"]
    by (intro conjI)
qed

text \<open>
  Claim C10. When the part of an output line after its first colon does not parse as an
  integer, and also when the line holds no colon at all, the line number recorded for the
  entry is 1.
\<close>

theorem line_number_defaults_to_1:
  "lines (parse_output h output) =
     map (\<lambda>outputLine. case parseInt (after_first_colon outputLine) of None \<Rightarrow> 1 | Some n \<Rightarrow> n)
         (split 0x0A (trim output))
   \<and> (parseInt (after_first_colon outputLine) = None \<longrightarrow>
        lines (parse_line h acc outputLine) = lines acc @ [1])
   \<and> (after_first_colon outputLine = None \<longrightarrow>
        lines (parse_line h acc outputLine) = lines acc @ [1])"
proof -
  have a: "lines (parse_output h output) =
     map (\<lambda>outputLine. case parseInt (after_first_colon outputLine) of None \<Rightarrow> 1 | Some n \<Rightarrow> n)
         (split 0x0A (trim output))"
    by (simp add: parse_output_eq line_number_def parseInt_lineStr)
  have b: "lines (parse_line h acc outputLine) =
      lines acc @ [case parseInt (after_first_colon outputLine) of None \<Rightarrow> 1 | Some n \<Rightarrow> n]"
    by (simp add: parse_line_def Let_def parseInt_lineStr)
  from a b show ?thesis by (auto simp: parseInt_undefined)
qed

theorem line_number_defaults_to_1_witness:
  "parseInt (after_first_colon (js ''??:?'')) = None
   \<and> lines (parse_line example_host \<lparr> quickPickItems = [], realPaths = [], lines = [7] \<rparr>
        (js ''??:?'')) = [7, 1]
   \<and> after_first_colon (js ''vmlinux'') = None
   \<and> lines (parse_line example_host \<lparr> quickPickItems = [], realPaths = [], lines = [7] \<rparr>
        (js ''vmlinux'')) = [7, 1]"
proof -
  have a: "parseInt (after_first_colon (js ''??:?'')) = None" by code_simp
  have b: "after_first_colon (js ''vmlinux'') = None" by code_simp
  from a b
    line_number_defaults_to_1 [of example_host "[]" "js ''??:?''"
      "\<lparr> quickPickItems = [], realPaths = [], lines = [7] \<rparr>"]
    line_number_defaults_to_1 [of example_host "[]" "js ''vmlinux''"
      "\<lparr> quickPickItems = [], realPaths = [], lines = [7] \<rparr>"]
  show ?thesis by simp
qed

section \<open>Properties of the process wrapper\<close>

subsection \<open>What settling a promise leaves alone\<close>

lemma settle_frame [simp]:
  "process (settle h out s k) = process s"
  "targetWatcher (settle h out s k) = targetWatcher s"
  "children (settle h out s k) = children s"
  "watchers (settle h out s k) = watchers s"
  "timers (settle h out s k) = timers s"
  "link_handlers (settle h out s k) = link_handlers s"
  "length (promises (settle h out s k)) = length (promises s)"
  by (simp_all add: settle_def)

lemma settle_nth:
  "promises (settle h out s k) ! j =
     (if j = k \<and> k < length (promises s) \<and> promises s ! k = Pending then out
      else promises s ! j)"
  by (simp add: settle_def)

lemma settle_all_frame [simp]:
  "process (foldl (settle h out) s ks) = process s"
  "targetWatcher (foldl (settle h out) s ks) = targetWatcher s"
  "children (foldl (settle h out) s ks) = children s"
  "watchers (foldl (settle h out) s ks) = watchers s"
  "timers (foldl (settle h out) s ks) = timers s"
  "link_handlers (foldl (settle h out) s ks) = link_handlers s"
  "length (promises (foldl (settle h out) s ks)) = length (promises s)"
  by (induction ks arbitrary: s) simp_all

lemma settle_all_other:
  "j \<notin> set ks \<Longrightarrow> promises (foldl (settle h out) s ks) ! j = promises s ! j"
  by (induction ks arbitrary: s) (simp_all add: settle_nth)

lemma settle_all_settled:
  "promises s ! j \<noteq> Pending \<Longrightarrow> out \<noteq> Pending \<Longrightarrow>
   promises (foldl (settle h out) s ks) ! j \<noteq> Pending"
  by (induction ks arbitrary: s) (simp_all add: settle_nth)

lemma update_child_frame [simp]:
  "process (update_child p f s) = process s"
  "targetWatcher (update_child p f s) = targetWatcher s"
  "watchers (update_child p f s) = watchers s"
  "promises (update_child p f s) = promises s"
  "timers (update_child p f s) = timers s"
  "link_handlers (update_child p f s) = link_handlers s"
  "ui (update_child p f s) = ui s"
  "length (children (update_child p f s)) = length (children s)"
  by (simp_all add: update_child_def)

lemma update_child_nth:
  "children (update_child p f s) ! q =
     (if q = p \<and> p < length (children s) then f (children s ! p) else children s ! q)"
  by (simp add: update_child_def)

lemma kill_frame [simp]:
  "process (kill p s) = process s"
  "targetWatcher (kill p s) = targetWatcher s"
  "watchers (kill p s) = watchers s"
  "promises (kill p s) = promises s"
  "timers (kill p s) = timers s"
  "link_handlers (kill p s) = link_handlers s"
  "ui (kill p s) = ui s"
  "length (children (kill p s)) = length (children s)"
  by (simp_all add: kill_def)

lemma start_frame [simp]:
  "targetWatcher (start h t s) = targetWatcher s"
  "watchers (start h t s) = watchers s"
  "promises (start h t s) = promises s"
  "timers (start h t s) = timers s"
  "link_handlers (start h t s) = link_handlers s"
  "ui (start h t s) = ui s"
  "length (children (start h t s)) = Suc (length (children s))"
  "process (start h t s) = Some (length (children s))"
  by (simp_all add: start_def Let_def split: option.splits)

lemma stop_frame [simp]:
  "targetWatcher (stop s) = targetWatcher s"
  "watchers (stop s) = watchers s"
  "promises (stop s) = promises s"
  "timers (stop s) = timers s"
  "link_handlers (stop s) = link_handlers s"
  "ui (stop s) = ui s"
  "length (children (stop s)) = length (children s)"
  "process (stop s) = None"
  by (simp_all add: stop_def split: option.splits)

lemma resolveAddress_frame [simp]:
  "process (fst (resolveAddress h a s)) = process s"
  "targetWatcher (fst (resolveAddress h a s)) = targetWatcher s"
  "watchers (fst (resolveAddress h a s)) = watchers s"
  "link_handlers (fst (resolveAddress h a s)) = link_handlers s"
  "ui (fst (resolveAddress h a s)) = ui s"
  "length (children (fst (resolveAddress h a s))) = length (children s)"
  "length (promises (fst (resolveAddress h a s))) = Suc (length (promises s))"
  "snd (resolveAddress h a s) = length (promises s)"
  by (simp_all add: resolveAddress_def Let_def split: option.splits)

lemma handleTerminalLink_frame [simp]:
  "process (handleTerminalLink h a s) = process s"
  "targetWatcher (handleTerminalLink h a s) = targetWatcher s"
  "watchers (handleTerminalLink h a s) = watchers s"
  "children (handleTerminalLink h a s) = children (fst (resolveAddress h a s))"
  "promises (handleTerminalLink h a s) = promises (fst (resolveAddress h a s))"
  "timers (handleTerminalLink h a s) = timers (fst (resolveAddress h a s))"
  by (simp_all add: handleTerminalLink_def Let_def case_prod_beta)

lemma emit_data_frame [simp]:
  "process (emit_data h p chunk s) = process s"
  "targetWatcher (emit_data h p chunk s) = targetWatcher s"
  "children (emit_data h p chunk s) = children s"
  "watchers (emit_data h p chunk s) = watchers s"
  "timers (emit_data h p chunk s) = timers s"
  "link_handlers (emit_data h p chunk s) = link_handlers s"
  "length (promises (emit_data h p chunk s)) = length (promises s)"
  by (simp_all add: emit_data_def)

lemma emit_error_frame [simp]:
  "process (emit_error h p s) = process s"
  "targetWatcher (emit_error h p s) = targetWatcher s"
  "children (emit_error h p s) = children s"
  "watchers (emit_error h p s) = watchers s"
  "timers (emit_error h p s) = timers s"
  "link_handlers (emit_error h p s) = link_handlers s"
  "length (promises (emit_error h p s)) = length (promises s)"
  by (simp_all add: emit_error_def)

lemma run_close_listener_frame [simp]:
  "targetWatcher (run_close_listener h code s l) = targetWatcher s"
  "children (run_close_listener h code s l) = children s"
  "watchers (run_close_listener h code s l) = watchers s"
  "timers (run_close_listener h code s l) = timers s"
  "link_handlers (run_close_listener h code s l) = link_handlers s"
  "length (promises (run_close_listener h code s l)) = length (promises s)"
  by (simp_all add: run_close_listener_def split: close_listener.splits)

lemma run_close_listeners_frame [simp]:
  "targetWatcher (foldl (run_close_listener h code) s ls) = targetWatcher s"
  "children (foldl (run_close_listener h code) s ls) = children s"
  "watchers (foldl (run_close_listener h code) s ls) = watchers s"
  "timers (foldl (run_close_listener h code) s ls) = timers s"
  "link_handlers (foldl (run_close_listener h code) s ls) = link_handlers s"
  "length (promises (foldl (run_close_listener h code) s ls)) = length (promises s)"
  by (induction ls arbitrary: s) simp_all

lemma emit_close_frame [simp]:
  "targetWatcher (emit_close h p code s) = targetWatcher s"
  "watchers (emit_close h p code s) = watchers s"
  "timers (emit_close h p code s) = timers s"
  "link_handlers (emit_close h p code s) = link_handlers s"
  "length (children (emit_close h p code s)) = length (children s)"
  "length (promises (emit_close h p code s)) = length (promises s)"
  by (simp_all add: emit_close_def)

lemma fire_timer_frame [simp]:
  "process (fire_timer h k s) = process s"
  "targetWatcher (fire_timer h k s) = targetWatcher s"
  "children (fire_timer h k s) = children s"
  "watchers (fire_timer h k s) = watchers s"
  "link_handlers (fire_timer h k s) = link_handlers s"
  "length (promises (fire_timer h k s)) = length (promises s)"
  by (simp_all add: fire_timer_def)

lemma watcher_event_frame [simp]:
  "targetWatcher (watcher_event h w e s) = targetWatcher s"
  "watchers (watcher_event h w e s) = watchers s"
  "promises (watcher_event h w e s) = promises s"
  "timers (watcher_event h w e s) = timers s"
  "link_handlers (watcher_event h w e s) = link_handlers s"
  "ui (watcher_event h w e s) = ui s"
  by (simp_all add: watcher_event_def split: file_event.splits)

lemma dispose_frame [simp]:
  "process (dispose w s) = process s"
  "targetWatcher (dispose w s) = targetWatcher s"
  "children (dispose w s) = children s"
  "promises (dispose w s) = promises s"
  "timers (dispose w s) = timers s"
  "link_handlers (dispose w s) = link_handlers s"
  "ui (dispose w s) = ui s"
  "length (watchers (dispose w s)) = length (watchers s)"
  by (simp_all add: dispose_def)

lemma monitorTarget_frame [simp]:
  "promises (monitorTarget h s) = promises s"
  "timers (monitorTarget h s) = timers s"
  "link_handlers (monitorTarget h s) = link_handlers s"
  "ui (monitorTarget h s) = ui s"
  by (simp_all add: monitorTarget_def Let_def split: option.splits list.splits)

lemma run_append: "run h s (es @ es') = run h (run h s es) es'"
  by (simp add: run_def)

lemma run_snoc: "run h s (es @ [e]) = step h (run h s es) e"
  by (simp add: run_def)

lemma run_Nil [simp]: "run h s [] = s"
  by (simp add: run_def)

lemma run_Cons: "run h s (e # es) = run h (step h s e) es"
  by (simp add: run_def)

lemma run_close_listener_process:
  "process (run_close_listener h code s l) = (if l = ClearProcess then None else process s)"
  by (simp add: run_close_listener_def split: close_listener.splits)

lemma run_close_listeners_process:
  "process (foldl (run_close_listener h code) s ls) =
     (if ClearProcess \<in> set ls then None else process s)"
  by (induction ls arbitrary: s) (auto simp: run_close_listener_process)

lemma emit_close_process:
  "process (emit_close h p code s) = None \<or> process (emit_close h p code s) = process s"
  by (simp add: emit_close_def run_close_listeners_process)

lemma handle_valid_initial: "handle_valid initial_state"
  by (simp add: handle_valid_def initial_state_def)

lemma handle_valid_start: "handle_valid (start h t s)"
  by (simp add: handle_valid_def)

lemma handle_valid_stop: "handle_valid (stop s)"
  by (simp add: handle_valid_def)

lemma handle_valid_monitorTarget: "handle_valid s \<Longrightarrow> handle_valid (monitorTarget h s)"
  by (auto simp: handle_valid_def monitorTarget_def Let_def split: option.splits list.splits)

lemma handle_valid_step: "handle_valid s \<Longrightarrow> handle_valid (step h s e)"
proof (cases e)
  case (ChildClose p code)
  assume "handle_valid s"
  then show ?thesis
    using emit_close_process [of h p code s]
    by (auto simp: ChildClose step_def handle_valid_def split: option.splits)
next
  case (FileEvent w fe)
  assume "handle_valid s"
  then show ?thesis
    by (cases fe)
       (simp_all add: FileEvent step_def watcher_event_def handle_valid_start handle_valid_stop)
qed (simp_all add: step_def handle_valid_def handle_valid_monitorTarget [unfolded handle_valid_def]
      split: option.splits)

lemma handle_valid_run: "handle_valid s \<Longrightarrow> handle_valid (run h s es)"
  by (induction es arbitrary: s) (simp_all add: run_Cons handle_valid_step)

lemma handle_valid_reachable: "handle_valid (run h initial_state es)"
  by (rule handle_valid_run [OF handle_valid_initial])

lemma resolveAddress_live:
  assumes "process s = Some p" and "p < length (children s)"
  shows "fst (resolveAddress h address s) =
     update_child p
       (\<lambda>c. c\<lparr> data_listeners := data_listeners c @ [length (promises s)],
               error_listeners := error_listeners c @ [length (promises s)],
               close_listeners := close_listeners c @ [RejectExited (length (promises s))],
               stdin_written := stdin_written c @ address @ [0x0A] \<rparr>)
       (s\<lparr> promises := promises s @ [Pending],
            timers := timers s @ [(length (promises s), 5000)] \<rparr>)"
    and "stdin_written (children (fst (resolveAddress h address s)) ! p) =
           stdin_written (children s ! p) @ address @ [0x0A]"
    and "promises (fst (resolveAddress h address s)) = promises s @ [Pending]"
    and "timers (fst (resolveAddress h address s)) = timers s @ [(length (promises s), 5000)]"
  using assms by (simp_all add: resolveAddress_def Let_def update_child_nth)


text \<open>
  Claim C9. \<open>resolveAddress\<close> called while the process handle is \<open>null\<close> (which is
  what the claim calls no live process) returns a promise rejected with the
  \<^verbatim>\<open>not running\<close> error, and changes nothing else: no stream is written, no timer
  set. Called in a reachable state whose handle holds a process, it appends the address
  and a newline to what has been written to the standard input of that process, and the
  new promise is pending.
\<close>

theorem resolveAddress_rejects_or_writes:
  "(process s = None \<longrightarrow>
      resolveAddress h address s =
        (s\<lparr> promises := promises s @ [Rejected (not_running_message (cfg_target h))] \<rparr>,
         length (promises s))
      \<and> children (fst (resolveAddress h address s)) = children s
      \<and> timers (fst (resolveAddress h address s)) = timers s)
   \<and> (s = run h initial_state es \<and> process s = Some p \<longrightarrow>
        p < length (children s)
        \<and> stdin_written (children (fst (resolveAddress h address s)) ! p) =
            stdin_written (children s ! p) @ address @ [0x0A]
        \<and> promises (fst (resolveAddress h address s)) = promises s @ [Pending]
        \<and> snd (resolveAddress h address s) = length (promises s))"
proof (intro conjI impI)
  assume none: "process s = None"
  then show "resolveAddress h address s =
        (s\<lparr> promises := promises s @ [Rejected (not_running_message (cfg_target h))] \<rparr>,
         length (promises s))"
    by (simp add: resolveAddress_def)
  from none show "children (fst (resolveAddress h address s)) = children s"
    by (simp add: resolveAddress_def)
  from none show "timers (fst (resolveAddress h address s)) = timers s"
    by (simp add: resolveAddress_def)
next
  assume a: "s = run h initial_state es \<and> process s = Some p"
  from a have q: "process s = Some p" by (rule conjunct2)
  from a have "handle_valid s" by (simp add: handle_valid_reachable)
  with q show p: "p < length (children s)" by (simp add: handle_valid_def)
  show "stdin_written (children (fst (resolveAddress h address s)) ! p) =
            stdin_written (children s ! p) @ address @ [0x0A]"
    by (rule resolveAddress_live(2) [OF q p])
  show "promises (fst (resolveAddress h address s)) = promises s @ [Pending]"
    by (rule resolveAddress_live(3) [OF q p])
  show "snd (resolveAddress h address s) = length (promises s)" by simp
qed

theorem resolveAddress_rejects_or_writes_witness:
  "process initial_state = None
   \<and> resolveAddress example_host (js ''a+0x1/0x2'') initial_state =
       (initial_state\<lparr> promises := [Rejected (not_running_message (js ''vmlinux''))] \<rparr>, 0)
   \<and> process (run example_host initial_state [MonitorTarget]) = Some 0
   \<and> stdin_written (children (fst (resolveAddress example_host (js ''a+0x1/0x2'')
         (run example_host initial_state [MonitorTarget]))) ! 0) = js ''a+0x1/0x2'' @ [0x0A]"
proof -
  have a: "process initial_state = None" by (simp add: initial_state_def)
  have b: "process (run example_host initial_state [MonitorTarget]) = Some 0" by code_simp
  have c: "stdin_written (children (run example_host initial_state [MonitorTarget]) ! 0) = []"
    by code_simp
  have d: "promises initial_state = []" "cfg_target example_host = js ''vmlinux''"
    by (simp_all add: initial_state_def example_host_def)
  from resolveAddress_rejects_or_writes [of initial_state example_host "js ''a+0x1/0x2''" "[]" 0] a d
  have e: "resolveAddress example_host (js ''a+0x1/0x2'') initial_state =
       (initial_state\<lparr> promises := [Rejected (not_running_message (js ''vmlinux''))] \<rparr>, 0)"
    by simp
  from resolveAddress_rejects_or_writes [of "run example_host initial_state [MonitorTarget]" example_host "js ''a+0x1/0x2''"
      "[MonitorTarget]" 0] b c
  have f: "stdin_written (children (fst (resolveAddress example_host (js ''a+0x1/0x2'')
         (run example_host initial_state [MonitorTarget]))) ! 0) = js ''a+0x1/0x2'' @ [0x0A]"
    by simp
  from a e b f show ?thesis by (intro conjI)
qed


lemma step_watchers:
  "e \<noteq> MonitorTarget \<Longrightarrow>
   watchers (step h s e) = watchers s \<and> targetWatcher (step h s e) = targetWatcher s"
  by (cases e) (simp_all add: step_def)

lemma run_watchers:
  "MonitorTarget \<notin> set es \<Longrightarrow>
   watchers (run h s es) = watchers s \<and> targetWatcher (run h s es) = targetWatcher s"
  by (induction es arbitrary: s) (auto simp: run_Cons step_watchers)

lemma monitorTarget_watcher:
  assumes "workspaceFolders h = Some (folder # rest)"
  shows "targetWatcher (monitorTarget h s) = Some (length (watchers s))"
    and "length (watchers (monitorTarget h s)) = Suc (length (watchers s))"
    and "watchers (monitorTarget h s) ! length (watchers s) =
           \<lparr> watched = folder @ js ''/'' @ cfg_target h, disposed = False \<rparr>"
  using assms
  by (simp_all add: monitorTarget_def Let_def nth_append split: option.splits)

lemma start_spawns:
  "children (start h t s) ! length (children s) = spawned (cfg_command h) t"
  by (simp add: start_def Let_def nth_append split: option.splits)

lemma start_kills:
  "process s = Some p \<Longrightarrow> p < length (children s) \<Longrightarrow> \<not> alive (children (start h t s) ! p)"
  by (simp add: start_def Let_def nth_append kill_def update_child_nth)

lemma stop_kills:
  "process s = Some p \<Longrightarrow> p < length (children s) \<Longrightarrow> \<not> alive (children (stop s) ! p)"
  by (simp add: stop_def kill_def update_child_nth)


text \<open>
  Claim C5. Once \<open>monitorTarget\<close> has run in a workspace with a folder, and until it
  runs again, the watcher it created calls \<open>start\<close> for the watched target,
  \<open>folder/target\<close>, on every change and create event and \<open>stop\<close> on every delete
  event. \<open>start\<close> spawns a new child process with the arguments
  \<^verbatim>\<open>-i -e target\<close> and makes it the process held; \<open>stop\<close> clears the handle; both
  kill the process held before.
\<close>

theorem watcher_restarts_resolver:
  assumes "workspaceFolders h = Some (folder # rest)" and "MonitorTarget \<notin> set es"
  shows "targetWatcher (run h (monitorTarget h s0) es) = Some (length (watchers s0))
    \<and> step h (run h (monitorTarget h s0) es) (FileEvent (length (watchers s0)) Changed) =
        start h (folder @ js ''/'' @ cfg_target h) (run h (monitorTarget h s0) es)
    \<and> step h (run h (monitorTarget h s0) es) (FileEvent (length (watchers s0)) Created) =
        start h (folder @ js ''/'' @ cfg_target h) (run h (monitorTarget h s0) es)
    \<and> step h (run h (monitorTarget h s0) es) (FileEvent (length (watchers s0)) Deleted) =
        stop (run h (monitorTarget h s0) es)
    \<and> process (start h target s) = Some (length (children s))
    \<and> children (start h target s) ! length (children s) =
        \<lparr> spawn_command = cfg_command h, spawn_args = [js ''-i'', js ''-e'', target],
          alive = True, closed = False, stdin_written = [],
          data_listeners = [], error_listeners = [], close_listeners = [ClearProcess] \<rparr>
    \<and> process (stop s) = None
    \<and> (process s = Some q \<and> q < length (children s) \<longrightarrow>
         \<not> alive (children (start h target s) ! q) \<and> \<not> alive (children (stop s) ! q))"
proof -
  let ?s = "run h (monitorTarget h s0) es"
  let ?w = "length (watchers s0)"
  from run_watchers [OF assms(2), of h "monitorTarget h s0"]
  have ws: "watchers ?s = watchers (monitorTarget h s0)"
    and tw: "targetWatcher ?s = targetWatcher (monitorTarget h s0)" by simp_all
  note mt = monitorTarget_watcher [OF assms(1), of s0]
  have w: "?w < length (watchers ?s)" "\<not> disposed (watchers ?s ! ?w)"
    "watched (watchers ?s ! ?w) = folder @ js ''/'' @ cfg_target h"
    by (simp_all add: ws mt)
  have a: "targetWatcher ?s = Some ?w" by (simp add: tw mt)
  have b: "step h ?s (FileEvent ?w Changed) = start h (folder @ js ''/'' @ cfg_target h) ?s"
    "step h ?s (FileEvent ?w Created) = start h (folder @ js ''/'' @ cfg_target h) ?s"
    "step h ?s (FileEvent ?w Deleted) = stop ?s"
    using w by (simp_all add: step_def watcher_event_def)
  have c: "children (start h target s) ! length (children s) =
        \<lparr> spawn_command = cfg_command h, spawn_args = [js ''-i'', js ''-e'', target],
          alive = True, closed = False, stdin_written = [],
          data_listeners = [], error_listeners = [], close_listeners = [ClearProcess] \<rparr>"
    by (simp add: start_spawns spawned_def)
  have d: "process s = Some q \<and> q < length (children s) \<longrightarrow>
         \<not> alive (children (start h target s) ! q) \<and> \<not> alive (children (stop s) ! q)"
    by (simp add: start_kills stop_kills)
  from a b c d show ?thesis by simp
qed

theorem watcher_restarts_resolver_witness:
  "workspaceFolders example_host = Some [js ''/ws'']
   \<and> MonitorTarget \<notin> set [HandleTerminalLink (js ''a+0x1/0x2''), ChildClose 0 None]
   \<and> step example_host
        (run example_host (monitorTarget example_host initial_state)
           [HandleTerminalLink (js ''a+0x1/0x2''), ChildClose 0 None])
        (FileEvent 0 Changed) =
      start example_host (js ''/ws'' @ js ''/'' @ cfg_target example_host)
        (run example_host (monitorTarget example_host initial_state)
           [HandleTerminalLink (js ''a+0x1/0x2''), ChildClose 0 None])
   \<and> step example_host
        (run example_host (monitorTarget example_host initial_state)
           [HandleTerminalLink (js ''a+0x1/0x2''), ChildClose 0 None])
        (FileEvent 0 Deleted) =
      stop (run example_host (monitorTarget example_host initial_state)
           [HandleTerminalLink (js ''a+0x1/0x2''), ChildClose 0 None])"
proof -
  have a: "workspaceFolders example_host = Some (js ''/ws'' # [])"
    by (simp add: example_host_def)
  have b: "MonitorTarget \<notin> set [HandleTerminalLink (js ''a+0x1/0x2''), ChildClose 0 None]"
    by simp
  have c: "length (watchers initial_state) = 0" by (simp add: initial_state_def)
  from watcher_restarts_resolver [OF a b, of initial_state] a b show ?thesis
    by (simp only: c) blast
qed

text \<open>
  Claim C4, evaluated on the code. \<open>start\<close> is called twice, the \<^verbatim>\<open>'close'\<close> event of
  the first child process (killed by the second \<open>start\<close>) is delivered, and \<open>start\<close>
  is called again. The close listener that the first \<open>start\<close> registered sets
  \<open>this.process\<close> to \<open>null\<close> although the handle then holds the second child, so the
  third \<open>start\<close> kills nothing: the second and the third child process are both live.
\<close>

theorem stale_close_listener_two_live:
  "process (run example_host initial_state
      [Start (js ''/ws/vmlinux''), Start (js ''/ws/vmlinux''), ChildClose 0 None]) = None
   \<and> live (run example_host initial_state
      [Start (js ''/ws/vmlinux''), Start (js ''/ws/vmlinux''), ChildClose 0 None]) = [1]
   \<and> live (run example_host initial_state
      [Start (js ''/ws/vmlinux''), Start (js ''/ws/vmlinux''), ChildClose 0 None,
       Start (js ''/ws/vmlinux'')]) = [1, 2]"
  by code_simp

section \<open>Properties of pending queries\<close>

lemma listens_cong:
  "children s' = children s \<Longrightarrow> listens s' q j = listens s q j"
  by (simp add: listens_def)

lemma listens_update_flags:
  assumes "\<And>c. data_listeners (f c) = data_listeners c"
    and "\<And>c. error_listeners (f c) = error_listeners c"
    and "\<And>c. close_listeners (f c) = close_listeners c"
  shows "listens (update_child p f s) q j = listens s q j"
  by (auto simp: listens_def update_child_nth assms)

lemma listens_kill [simp]: "listens (kill p s) q j = listens s q j"
  unfolding kill_def by (rule listens_update_flags) simp_all

lemma listens_start: "listens (start h t s) q j = listens s q j"
  by (auto simp: start_def Let_def listens_def nth_append spawned_def kill_def update_child_nth
      split: option.splits)

lemma listens_stop: "listens (stop s) q j = listens s q j"
proof (cases "process s")
  case None
  then show ?thesis by (simp add: stop_def)
next
  case (Some p)
  have "listens ((kill p s)\<lparr> process := None \<rparr>) q j = listens (kill p s) q j"
    by (rule listens_cong) simp
  with Some show ?thesis by (simp add: stop_def)
qed

lemma listens_resolveAddress:
  "listens (fst (resolveAddress h a s)) q j \<longleftrightarrow>
     listens s q j \<or> (j = length (promises s) \<and> process s = Some q \<and> q < length (children s))"
  by (auto simp: resolveAddress_def Let_def listens_def update_child_nth split: option.splits)

lemma listens_handleTerminalLink:
  "listens (handleTerminalLink h a s) q j \<longleftrightarrow>
     listens s q j \<or> (j = length (promises s) \<and> process s = Some q \<and> q < length (children s))"
proof -
  have "listens (handleTerminalLink h a s) q j = listens (fst (resolveAddress h a s)) q j"
    by (rule listens_cong) simp
  then show ?thesis by (simp add: listens_resolveAddress)
qed

lemma listens_monitorTarget: "listens (monitorTarget h s) q j = listens s q j"
proof -
  have d: "\<And>w s. listens ((dispose w s)\<lparr> targetWatcher := None \<rparr>) q j = listens s q j"
    by (rule listens_cong) simp
  have u: "\<And>s ws tw. listens (s\<lparr> watchers := ws, targetWatcher := tw \<rparr>) q j = listens s q j"
    by (rule listens_cong) simp
  show ?thesis
    by (simp add: monitorTarget_def Let_def u d listens_start split: option.splits list.splits)
qed

lemma listens_watcher_event: "listens (watcher_event h w e s) q j = listens s q j"
  by (simp add: watcher_event_def listens_start listens_stop split: file_event.splits)

lemma listens_emit_data: "listens (emit_data h p chunk s) q j = listens s q j"
  by (rule listens_cong) simp

lemma listens_emit_error: "listens (emit_error h p s) q j = listens s q j"
  by (rule listens_cong) simp

lemma listens_emit_close: "listens (emit_close h p code s) q j = listens s q j"
proof (cases "p < length (children s) \<and> \<not> closed (children s ! p)")
  case True
  have "listens (emit_close h p code s) q j =
      listens (update_child p (\<lambda>c. c\<lparr> alive := False, closed := True \<rparr>) s) q j"
    using True by (intro listens_cong) (simp add: emit_close_def)
  also have "\<dots> = listens s q j"
    by (rule listens_update_flags) simp_all
  finally show ?thesis .
next
  case False
  then have "emit_close h p code s = s" by (auto simp: emit_close_def)
  then show ?thesis by simp
qed

lemma listens_fire_timer: "listens (fire_timer h k s) q j = listens s q j"
  by (rule listens_cong) simp

lemma listens_step:
  "listens (step h s e) q j \<Longrightarrow>
   listens s q j \<or> (j = length (promises s) \<and> process s = Some q \<and> q < length (children s))"
  by (cases e)
     (simp_all add: step_def listens_start listens_stop listens_resolveAddress
        listens_handleTerminalLink listens_monitorTarget listens_watcher_event
        listens_emit_data listens_emit_error listens_emit_close listens_fire_timer)

lemma length_promises_step: "length (promises s) \<le> length (promises (step h s e))"
  by (cases e) (simp_all add: step_def)

lemma listeners_bounded_step:
  assumes "listeners_bounded s"
  shows "listeners_bounded (step h s e)"
  unfolding listeners_bounded_def
proof (intro allI impI)
  fix q j
  assume "listens (step h s e) q j"
  from listens_step [OF this]
  show "j < length (promises (step h s e))"
  proof
    assume "listens s q j"
    with assms have "j < length (promises s)" by (auto simp: listeners_bounded_def)
    with length_promises_step [of s h e] show ?thesis by simp
  next
    assume a: "j = length (promises s) \<and> process s = Some q \<and> q < length (children s)"
    have "listens (step h s e) q j \<Longrightarrow> \<not> listens s q j \<Longrightarrow>
        length (promises (step h s e)) = Suc (length (promises s))"
      by (cases e)
         (simp_all add: step_def listens_start listens_stop listens_resolveAddress
            listens_handleTerminalLink listens_monitorTarget listens_watcher_event
            listens_emit_data listens_emit_error listens_emit_close listens_fire_timer)
    moreover have "\<not> listens s q j"
      using assms a by (auto simp: listeners_bounded_def)
    ultimately show ?thesis using \<open>listens (step h s e) q j\<close> a by simp
  qed
qed

lemma listeners_bounded_run: "listeners_bounded s \<Longrightarrow> listeners_bounded (run h s es)"
  by (induction es arbitrary: s) (simp_all add: run_Cons listeners_bounded_step)

lemma listeners_bounded_initial: "listeners_bounded initial_state"
  by (simp add: listeners_bounded_def listens_def initial_state_def)

lemma settle_pending_mono:
  "promises (settle h out s k) ! j = Pending \<Longrightarrow> promises s ! j = Pending"
  by (simp add: settle_nth split: if_splits)

lemma settle_all_pending_mono:
  "promises (foldl (settle h out) s ks) ! j = Pending \<Longrightarrow> promises s ! j = Pending"
  by (induction ks arbitrary: s) (auto dest: settle_pending_mono)

lemma run_close_listener_nth:
  "promises (run_close_listener h code s l) ! j =
     (if l = RejectExited j \<and> j < length (promises s) \<and> promises s ! j = Pending
      then Rejected (exited_message code) else promises s ! j)"
  by (cases l) (auto simp: run_close_listener_def settle_nth)

lemma run_close_listeners_pending_mono:
  "promises (foldl (run_close_listener h code) s ls) ! j = Pending \<Longrightarrow> promises s ! j = Pending"
proof (induction ls arbitrary: s)
  case Nil
  then show ?case by simp
next
  case (Cons l ls)
  from Cons.IH [of "run_close_listener h code s l"] Cons.prems
  have "promises (run_close_listener h code s l) ! j = Pending" by simp
  then show ?case by (simp add: run_close_listener_nth split: if_splits)
qed

lemma run_close_listeners_other:
  "RejectExited j \<notin> set ls \<Longrightarrow>
   promises (foldl (run_close_listener h code) s ls) ! j = promises s ! j"
  by (induction ls arbitrary: s) (auto simp: run_close_listener_nth)

lemma promises_resolveAddress_nth:
  "j < length (promises s) \<Longrightarrow> promises (fst (resolveAddress h a s)) ! j = promises s ! j"
  by (simp add: resolveAddress_def Let_def nth_append split: option.splits)

lemma timers_resolveAddress:
  "set (timers s) \<subseteq> set (timers (fst (resolveAddress h a s)))"
  by (auto simp: resolveAddress_def Let_def split: option.splits)

lemma step_pending_mono:
  assumes "j < length (promises s)" and "promises (step h s e) ! j = Pending"
  shows "promises s ! j = Pending"
proof (cases e)
  case (ResolveAddress a)
  with assms show ?thesis by (simp add: step_def promises_resolveAddress_nth)
next
  case (HandleTerminalLink a)
  with assms show ?thesis by (simp add: step_def promises_resolveAddress_nth)
next
  case (StdoutData p chunk)
  with assms show ?thesis
    by (auto simp: step_def emit_data_def split: if_splits dest: settle_all_pending_mono)
next
  case (ChildError p)
  with assms show ?thesis
    by (auto simp: step_def emit_error_def split: if_splits dest: settle_all_pending_mono)
next
  case (ChildClose p code)
  with assms show ?thesis
    by (auto simp: step_def emit_close_def split: if_splits
        dest!: run_close_listeners_pending_mono)
next
  case (TimerFired k)
  with assms show ?thesis
    by (auto simp: step_def fire_timer_def split: if_splits dest!: settle_pending_mono)
qed (use assms in \<open>simp_all add: step_def\<close>)

lemma step_timers_kept:
  assumes "t \<in> set (timers s)" and "e \<noteq> TimerFired (fst t)"
  shows "t \<in> set (timers (step h s e))"
proof (cases e)
  case (ResolveAddress a)
  with assms timers_resolveAddress [of s h a] show ?thesis by (auto simp: step_def)
next
  case (HandleTerminalLink a)
  with assms timers_resolveAddress [of s h a] show ?thesis by (auto simp: step_def)
next
  case (TimerFired k)
  with assms show ?thesis by (auto simp: step_def fire_timer_def)
qed (use assms in \<open>simp_all add: step_def\<close>)

lemma fire_timer_settles:
  assumes "k < length (promises s)" and "k \<in> fst ` set (timers s)"
  shows "promises (fire_timer h k s) ! k =
           (if promises s ! k = Pending then Rejected timeout_message else promises s ! k)"
  using assms by (simp add: fire_timer_def settle_nth)

lemma pending_have_timers_step:
  assumes "pending_have_timers s"
  shows "pending_have_timers (step h s e)"
  unfolding pending_have_timers_def
proof (intro allI impI)
  fix j
  assume j: "j < length (promises (step h s e))" and p: "promises (step h s e) ! j = Pending"
  show "j \<in> fst ` set (timers (step h s e))"
  proof (cases "j < length (promises s)")
    case True
    from step_pending_mono [OF True p] have old: "promises s ! j = Pending" .
    with assms True obtain t where t: "t \<in> set (timers s)" "fst t = j"
      by (auto simp: pending_have_timers_def)
    show ?thesis
    proof (cases "e = TimerFired j")
      case True
      with \<open>j < length (promises s)\<close> t p have False
        by (auto simp: step_def fire_timer_def settle_nth split: if_splits)
      then show ?thesis ..
    next
      case False
      with t step_timers_kept [of t s e h] show ?thesis by force
    qed
  next
    case False
    with j p show ?thesis
      by (cases e)
         (auto simp: step_def resolveAddress_def Let_def nth_append split: option.splits)
  qed
qed

lemma pending_have_timers_run: "pending_have_timers s \<Longrightarrow> pending_have_timers (run h s es)"
  by (induction es arbitrary: s) (simp_all add: run_Cons pending_have_timers_step)

lemma pending_have_timers_initial: "pending_have_timers initial_state"
  by (simp add: pending_have_timers_def initial_state_def)

lemma timer_settles:
  assumes "pending_have_timers s" and "k < length (promises s)"
  shows "promises (step h s (TimerFired k)) ! k \<noteq> Pending"
proof (cases "promises s ! k = Pending")
  case True
  with assms have "k \<in> fst ` set (timers s)" by (simp add: pending_have_timers_def)
  from fire_timer_settles [OF assms(2) this] True show ?thesis by (simp add: step_def)
next
  case False
  with step_pending_mono [OF assms(2), of h "TimerFired k"] show ?thesis by blast
qed

lemma step_promise_untouched:
  assumes k: "k < length (promises s)" and only: "\<forall>q. listens s q k \<longrightarrow> q = p"
    and quiet: "\<not> concerns p k e"
  shows "promises (step h s e) ! k = promises s ! k"
proof (cases e)
  case (ResolveAddress a)
  with k show ?thesis by (simp add: step_def promises_resolveAddress_nth)
next
  case (HandleTerminalLink a)
  with k show ?thesis by (simp add: step_def promises_resolveAddress_nth)
next
  case (StdoutData q chunk)
  with quiet have qp: "q \<noteq> p" by simp
  show ?thesis
  proof (cases "q < length (children s) \<and> \<not> closed (children s ! q)")
    case True
    with only qp have "k \<notin> set (data_listeners (children s ! q))"
      by (auto simp: listens_def)
    with True show ?thesis
      by (simp add: StdoutData step_def emit_data_def settle_all_other)
  next
    case False
    then show ?thesis by (auto simp: StdoutData step_def emit_data_def)
  qed
next
  case (ChildError q)
  with quiet have qp: "q \<noteq> p" by simp
  show ?thesis
  proof (cases "q < length (children s) \<and> \<not> closed (children s ! q)")
    case True
    with only qp have "k \<notin> set (error_listeners (children s ! q))"
      by (auto simp: listens_def)
    with True show ?thesis
      by (simp add: ChildError step_def emit_error_def settle_all_other)
  next
    case False
    then show ?thesis by (auto simp: ChildError step_def emit_error_def)
  qed
next
  case (ChildClose q code)
  with quiet have qp: "q \<noteq> p" by simp
  show ?thesis
  proof (cases "q < length (children s) \<and> \<not> closed (children s ! q)")
    case True
    with only qp have "RejectExited k \<notin> set (close_listeners (children s ! q))"
      by (auto simp: listens_def)
    with True show ?thesis
      by (simp add: ChildClose step_def emit_close_def run_close_listeners_other)
  next
    case False
    then show ?thesis by (auto simp: ChildClose step_def emit_close_def)
  qed
next
  case (TimerFired j)
  with quiet have "j \<noteq> k" by simp
  then show ?thesis
    by (auto simp: TimerFired step_def fire_timer_def settle_nth)
qed (simp_all add: step_def)

lemma awaiting_step:
  assumes "awaiting p k s" and "\<not> concerns p k e"
  shows "awaiting p k (step h s e)"
proof -
  from assms(1) have k: "k < length (promises s)" and pend: "promises s ! k = Pending"
    and tm: "(k, 5000) \<in> set (timers s)" and only: "\<forall>q. listens s q k \<longrightarrow> q = p"
    by (simp_all add: awaiting_def)
  from assms(2) have "e \<noteq> TimerFired (fst (k, 5000::nat))" by auto
  from step_timers_kept [OF tm this]
  have tm': "(k, 5000) \<in> set (timers (step h s e))" .
  from k length_promises_step [of s h e] have k': "k < length (promises (step h s e))" by simp
  have only': "\<forall>q. listens (step h s e) q k \<longrightarrow> q = p"
    using listens_step [of h s e _ k] only k by auto
  from step_promise_untouched [OF k only assms(2)] pend
  have "promises (step h s e) ! k = Pending" by simp
  with k' tm' only' show ?thesis by (simp add: awaiting_def)
qed

lemma awaiting_run:
  "awaiting p k s \<Longrightarrow> list_all (\<lambda>e. \<not> concerns p k e) es \<Longrightarrow> awaiting p k (run h s es)"
  by (induction es arbitrary: s) (simp_all add: run_Cons awaiting_step)

lemma awaiting_resolveAddress:
  assumes "listeners_bounded s" and "process s = Some p" and "p < length (children s)"
  shows "awaiting p (length (promises s)) (fst (resolveAddress h a s))"
proof -
  have "\<And>q. \<not> listens s q (length (promises s))"
    using assms(1) by (auto simp: listeners_bounded_def)
  then have "\<forall>q. listens (fst (resolveAddress h a s)) q (length (promises s)) \<longrightarrow> q = p"
    using assms(2) by (simp add: listens_resolveAddress)
  then show ?thesis
    using assms(2,3) by (simp add: awaiting_def resolveAddress_live)
qed

lemma awaiting_timer:
  assumes "awaiting p k s"
  shows "promises (step h s (TimerFired k)) ! k = Rejected timeout_message"
proof -
  from assms have k: "k < length (promises s)" and pend: "promises s ! k = Pending"
    and tm: "k \<in> fst ` set (timers s)"
    by (force simp: awaiting_def)+
  from fire_timer_settles [OF k tm] pend show ?thesis by (simp add: step_def)
qed


text \<open>
  Claim C6, as amended. A call of \<open>resolveAddress\<close> in a reachable state whose handle
  holds a process sets a timer of 5000 milliseconds for the new promise and leaves the
  promise pending. If no data, no error and no close of that process is delivered before
  the timer fires, the promise is still pending then and the timer rejects it with
  \<^verbatim>\<open>addr2line resolution timed out after 5 seconds\<close>. Whatever was delivered before, the
  promise is no longer pending once its timer has fired.
\<close>

theorem timeout_rejects_quiet_query:
  assumes "s = run h initial_state es0" and "process s = Some p"
    and "resolveAddress h address s = (s1, k)"
  shows "(k, 5000) \<in> set (timers s1)
    \<and> promises s1 ! k = Pending
    \<and> (list_all (\<lambda>e. \<not> concerns p k e) es \<longrightarrow>
         promises (run h s1 es) ! k = Pending
         \<and> promises (step h (run h s1 es) (TimerFired k)) ! k = Rejected timeout_message)
    \<and> promises (step h (run h s1 es') (TimerFired k)) ! k \<noteq> Pending"
proof -
  let ?s1 = "fst (resolveAddress h address s)"
  let ?k = "length (promises s)"
  from assms(3) have s1: "s1 = ?s1" by simp
  from assms(3) resolveAddress_frame(8) [of h address s] have k: "k = ?k" by simp
  from assms(1) have hv: "handle_valid s" and lb: "listeners_bounded s"
    by (simp_all add: handle_valid_reachable listeners_bounded_run listeners_bounded_initial)
  from hv assms(2) have p: "p < length (children s)" by (simp add: handle_valid_def)
  from awaiting_resolveAddress [OF lb assms(2) p]
  have aw: "awaiting p ?k ?s1" .
  have a: "(?k, 5000) \<in> set (timers ?s1)" "promises ?s1 ! ?k = Pending"
    using aw by (simp_all add: awaiting_def)
  have b: "list_all (\<lambda>e. \<not> concerns p ?k e) es \<longrightarrow>
         promises (run h ?s1 es) ! ?k = Pending
         \<and> promises (step h (run h ?s1 es) (TimerFired ?k)) ! ?k = Rejected timeout_message"
  proof
    assume "list_all (\<lambda>e. \<not> concerns p ?k e) es"
    from awaiting_run [OF aw this] have aw': "awaiting p ?k (run h ?s1 es)" .
    from aw' awaiting_timer [OF aw']
    show "promises (run h ?s1 es) ! ?k = Pending
         \<and> promises (step h (run h ?s1 es) (TimerFired ?k)) ! ?k = Rejected timeout_message"
      by (simp add: awaiting_def)
  qed
  from assms(1) have "pending_have_timers s"
    by (simp add: pending_have_timers_run pending_have_timers_initial)
  then have "pending_have_timers (step h s (ResolveAddress address))"
    by (rule pending_have_timers_step)
  then have "pending_have_timers ?s1" by (simp add: step_def)
  then have pt: "pending_have_timers (run h ?s1 es')"
    by (rule pending_have_timers_run)
  have "?k < length (promises ?s1)" by simp
  also have "\<dots> \<le> length (promises (run h ?s1 es'))"
  proof (induction es' rule: rev_induct)
    case Nil
    then show ?case by simp
  next
    case (snoc e es')
    then show ?case
      using length_promises_step [of "run h ?s1 es'" h e] by (simp add: run_snoc)
  qed
  finally have "?k < length (promises (run h ?s1 es'))" .
  from timer_settles [OF pt this]
  have c: "promises (step h (run h ?s1 es') (TimerFired ?k)) ! ?k \<noteq> Pending" .
  from a b c show ?thesis unfolding s1 k by (intro conjI)
qed

text \<open>
  The claim as stated fails when the process closes first: no data arrives, and the
  promise is rejected with the exit code, not with the timeout.
\<close>

theorem timeout_rejects_counterexample:
  "process (run example_host initial_state [MonitorTarget]) = Some 0
   \<and> live (run example_host initial_state [MonitorTarget]) = [0]
   \<and> promises (run example_host initial_state
        [MonitorTarget, ResolveAddress (js ''a+0x1/0x2''), ChildClose 0 (Some 1), TimerFired 0])
      = [Rejected (js ''addr2line exited with code 1'')]
   \<and> Rejected (js ''addr2line exited with code 1'') \<noteq> Rejected timeout_message"
  by code_simp


theorem timeout_rejects_quiet_query_witness:
  "process (run example_host initial_state [MonitorTarget]) = Some 0
   \<and> list_all (\<lambda>e. \<not> concerns 0 0 e)
       [ResolveAddress (js ''b+0x3/0x4''), FileEvent 0 Changed, StdoutData 1 (js ''x.c:1'')]
   \<and> promises
        (step example_host
           (run example_host
              (fst (resolveAddress example_host (js ''a+0x1/0x2'')
                      (run example_host initial_state [MonitorTarget])))
              [ResolveAddress (js ''b+0x3/0x4''), FileEvent 0 Changed,
               StdoutData 1 (js ''x.c:1'')])
           (TimerFired 0)) ! 0
      = Rejected timeout_message"
proof -
  have live: "process (run example_host initial_state [MonitorTarget]) = Some 0"
    by code_simp
  have call: "resolveAddress example_host (js ''a+0x1/0x2'')
        (run example_host initial_state [MonitorTarget]) =
      (fst (resolveAddress example_host (js ''a+0x1/0x2'')
              (run example_host initial_state [MonitorTarget])), 0)"
    by (simp add: prod_eq_iff run_def step_def initial_state_def)
  have quiet: "list_all (\<lambda>e. \<not> concerns 0 0 e)
       [ResolveAddress (js ''b+0x3/0x4''), FileEvent 0 Changed, StdoutData 1 (js ''x.c:1'')]"
    by simp
  from timeout_rejects_quiet_query [OF refl live call,
      of "[ResolveAddress (js ''b+0x3/0x4''), FileEvent 0 Changed, StdoutData 1 (js ''x.c:1'')]"]
    live quiet
  show ?thesis by blast
qed


text \<open>
  Claim C7, as amended. The wrapper has no queue: each call of \<open>resolveAddress\<close> on a
  held process writes its query to the standard input at once, after the queries
  written before, whether or not earlier promises are still pending. After two calls in a
  row both queries are written, in the order of the calls, and both promises are pending.
\<close>

theorem queries_written_at_once:
  assumes "s = run h initial_state es" and "process s = Some p"
    and "resolveAddress h a1 s = (s1, k1)" and "resolveAddress h a2 s1 = (s2, k2)"
  shows "stdin_written (children s2 ! p) =
           stdin_written (children s ! p) @ a1 @ [0x0A] @ a2 @ [0x0A]
    \<and> promises s2 = promises s @ [Pending, Pending]
    \<and> k1 = length (promises s) \<and> k2 = Suc k1"
proof -
  from assms(1,2) have p: "p < length (children s)"
    using handle_valid_reachable [of h es] by (simp add: handle_valid_def)
  from assms(3) have s1: "s1 = fst (resolveAddress h a1 s)"
    and k1: "k1 = snd (resolveAddress h a1 s)" by simp_all
  from assms(4) have s2: "s2 = fst (resolveAddress h a2 s1)"
    and k2: "k2 = snd (resolveAddress h a2 s1)" by simp_all
  have p1: "process s1 = Some p" "p < length (children s1)"
    using assms(2) p by (simp_all add: s1)
  show ?thesis
    unfolding s2 k2
    by (simp add: resolveAddress_live(2,3) [OF p1])
       (simp add: s1 k1 resolveAddress_live(2,3) [OF assms(2) p])
qed

text \<open>
  The claim as stated fails on two calls in a row: the second query is on the standard
  input of the resolver while the first promise is still pending.
\<close>

theorem queries_serialized_counterexample:
  "stdin_written (children (run example_host initial_state
       [MonitorTarget, ResolveAddress (js ''a+0x1/0x2''), ResolveAddress (js ''b+0x3/0x4'')]) ! 0)
     = js ''a+0x1/0x2\<newline>b+0x3/0x4\<newline>''
   \<and> promises (run example_host initial_state
       [MonitorTarget, ResolveAddress (js ''a+0x1/0x2''), ResolveAddress (js ''b+0x3/0x4'')])
     = [Pending, Pending]"
  by code_simp


theorem queries_written_at_once_witness:
  "process (run example_host initial_state [MonitorTarget, ResolveAddress (js ''z+0x9/0x9'')])
     = Some 0
   \<and> promises (run example_host initial_state [MonitorTarget, ResolveAddress (js ''z+0x9/0x9'')])
     = [Pending]
   \<and> promises
        (fst (resolveAddress example_host (js ''b+0x3/0x4'')
           (fst (resolveAddress example_host (js ''a+0x1/0x2'')
              (run example_host initial_state
                 [MonitorTarget, ResolveAddress (js ''z+0x9/0x9'')])))))
     = [Pending, Pending, Pending]"
proof -
  let ?s = "run example_host initial_state [MonitorTarget, ResolveAddress (js ''z+0x9/0x9'')]"
  have live: "process ?s = Some 0" by code_simp
  have pend: "promises ?s = [Pending]" by code_simp
  from queries_written_at_once [OF refl live surjective_pairing surjective_pairing, of "js ''b+0x3/0x4''" "js ''a+0x1/0x2''"]
    live pend
  show ?thesis by simp
qed


section \<open>Properties of the link handler\<close>

lemma held_open_cong:
  "children s' = children s \<Longrightarrow> process s' = process s \<Longrightarrow> held_open s' = held_open s"
  by (simp add: held_open_def split: option.splits)

lemma held_open_kill:
  "held_open s \<Longrightarrow>
   \<forall>p < length (children (kill q s)).
     ClearProcess \<in> set (close_listeners (children (kill q s) ! p))"
  by (auto simp: held_open_def kill_def update_child_nth)

lemma held_open_start: "held_open s \<Longrightarrow> held_open (start h t s)"
  using held_open_kill [of s]
  by (auto simp: held_open_def start_def Let_def nth_append spawned_def less_Suc_eq
      split: option.splits)

lemma held_open_stop: "held_open s \<Longrightarrow> held_open (stop s)"
  using held_open_kill [of s]
  by (auto simp: held_open_def stop_def split: option.splits)

lemma held_open_resolveAddress: "held_open s \<Longrightarrow> held_open (fst (resolveAddress h a s))"
  by (auto simp: held_open_def resolveAddress_def Let_def update_child_nth split: option.splits)

lemma held_open_handleTerminalLink: "held_open s \<Longrightarrow> held_open (handleTerminalLink h a s)"
proof -
  assume "held_open s"
  then have "held_open (fst (resolveAddress h a s))" by (rule held_open_resolveAddress)
  moreover have "held_open (handleTerminalLink h a s) = held_open (fst (resolveAddress h a s))"
    by (rule held_open_cong) simp_all
  ultimately show ?thesis by simp
qed

lemma held_open_monitorTarget: "held_open s \<Longrightarrow> held_open (monitorTarget h s)"
proof -
  assume hs: "held_open s"
  define s1 where "s1 = (case targetWatcher s of
                  Some w \<Rightarrow> (dispose w s)\<lparr> targetWatcher := None \<rparr>
                | None \<Rightarrow> s)"
  have "held_open s1 = held_open s"
    by (rule held_open_cong) (simp_all add: s1_def split: option.splits)
  with hs have h1: "held_open s1" by simp
  have u: "\<And>s ws tw. held_open (s\<lparr> watchers := ws, targetWatcher := tw \<rparr>) = held_open s"
    by (rule held_open_cong) simp_all
  show ?thesis
    using h1 held_open_start [OF h1]
    by (simp add: monitorTarget_def Let_def s1_def [symmetric] u split: option.splits list.splits)
qed

lemma held_open_emit_close: "held_open s \<Longrightarrow> held_open (emit_close h p code s)"
proof (cases "p < length (children s) \<and> \<not> closed (children s ! p)")
  case False
  then have "emit_close h p code s = s" by (auto simp: emit_close_def)
  then show "held_open s \<Longrightarrow> ?thesis" by simp
next
  case True
  assume hs: "held_open s"
  with True have cp: "ClearProcess \<in> set (close_listeners (children s ! p))"
    by (simp add: held_open_def)
  have proc: "process (emit_close h p code s) = None"
    using True cp by (simp add: emit_close_def run_close_listeners_process)
  have ch: "children (emit_close h p code s) =
      children (update_child p (\<lambda>c. c\<lparr> alive := False, closed := True \<rparr>) s)"
    using True by (simp add: emit_close_def)
  show ?thesis
    using hs by (auto simp: held_open_def proc ch update_child_nth)
qed

lemma held_open_step: "held_open s \<Longrightarrow> held_open (step h s e)"
proof (cases e)
  case (FileEvent w fe)
  assume "held_open s"
  then show ?thesis
    by (cases fe) (simp_all add: FileEvent step_def watcher_event_def held_open_start held_open_stop)
next
  case (StdoutData p chunk)
  assume "held_open s"
  moreover have "held_open (emit_data h p chunk s) = held_open s"
    by (rule held_open_cong) simp_all
  ultimately show ?thesis by (simp add: StdoutData step_def)
next
  case (ChildError p)
  assume "held_open s"
  moreover have "held_open (emit_error h p s) = held_open s"
    by (rule held_open_cong) simp_all
  ultimately show ?thesis by (simp add: ChildError step_def)
next
  case (TimerFired k)
  assume "held_open s"
  moreover have "held_open (fire_timer h k s) = held_open s"
    by (rule held_open_cong) simp_all
  ultimately show ?thesis by (simp add: TimerFired step_def)
qed (simp_all add: step_def held_open_start held_open_stop held_open_resolveAddress
      held_open_handleTerminalLink held_open_monitorTarget held_open_emit_close)

lemma held_open_run: "held_open s \<Longrightarrow> held_open (run h s es)"
  by (induction es arbitrary: s) (simp_all add: run_Cons held_open_step)

lemma held_open_initial: "held_open initial_state"
  by (simp add: held_open_def initial_state_def)

lemma ui_settle: "\<exists>acts. ui (settle h out s k) = ui s @ acts"
  by (simp add: settle_def)

lemma ui_settle_all: "\<exists>acts. ui (foldl (settle h out) s ks) = ui s @ acts"
proof (induction ks arbitrary: s)
  case Nil
  then show ?case by simp
next
  case (Cons k ks)
  from ui_settle [of h out s k] obtain a where a: "ui (settle h out s k) = ui s @ a" by blast
  from Cons [of "settle h out s k"] obtain b
    where "ui (foldl (settle h out) (settle h out s k) ks) = ui (settle h out s k) @ b" by blast
  with a have "ui (foldl (settle h out) s (k # ks)) = ui s @ (a @ b)" by simp
  then show ?case by blast
qed

lemma link_click_then_data:
  assumes reach: "s = run h initial_state es" and held: "process s = Some p"
  shows "\<exists>acts. ui (step h (handleTerminalLink h link_text s) (StdoutData p chunk)) =
           ui s @ acts @ on_resolved h chunk"
proof -
  let ?k = "length (promises s)"
  let ?s1 = "fst (resolveAddress h link_text s)"
  let ?s2 = "handleTerminalLink h link_text s"
  from reach have hv: "handle_valid s" and lb: "listeners_bounded s" and ho: "held_open s"
    by (simp_all add: handle_valid_reachable listeners_bounded_run listeners_bounded_initial
        held_open_run held_open_initial)
  from hv held have p: "p < length (children s)" by (simp add: handle_valid_def)
  from ho held have open_p: "\<not> closed (children s ! p)" by (simp add: held_open_def)
  note live = resolveAddress_live [OF held p, of h link_text]
  have pend: "promises ?s1 ! ?k = Pending" by (simp add: live(3))
  have s2: "?s2 = ?s1\<lparr> link_handlers := link_handlers ?s1 @ [?k], ui := ui ?s1 \<rparr>"
    by (simp add: handleTerminalLink_def case_prod_beta Let_def pend reaction_def)
  have ch2: "children ?s2 = children ?s1" by simp
  have dl: "data_listeners (children ?s1 ! p) = data_listeners (children s ! p) @ [?k]"
    using p by (simp add: live(1) update_child_nth)
  have cl: "\<not> closed (children ?s1 ! p)"
    using p open_p by (simp add: live(1) update_child_nth)
  have p2: "p < length (children ?s2)" using p by simp
  define s3 where "s3 = foldl (settle h (Fulfilled chunk)) ?s2 (data_listeners (children s ! p))"
  have fresh: "?k \<notin> set (data_listeners (children s ! p))"
  proof
    assume "?k \<in> set (data_listeners (children s ! p))"
    with p have "listens s p ?k" by (simp add: listens_def)
    with lb show False by (auto simp: listeners_bounded_def)
  qed
  have "promises s3 ! ?k = promises ?s2 ! ?k"
    unfolding s3_def by (rule settle_all_other [OF fresh])
  then have pend3: "promises s3 ! ?k = Pending" by (simp add: pend)
  have len3: "?k < length (promises s3)" by (simp add: s3_def)
  have lh3: "?k \<in> set (link_handlers s3)" by (simp add: s3_def s2)
  from ui_settle_all [of h "Fulfilled chunk" ?s2 "data_listeners (children s ! p)"]
  obtain acts where "ui s3 = ui ?s2 @ acts" by (auto simp: s3_def)
  then have ui3: "ui s3 = ui s @ acts" by (simp add: s2)
  have "step h ?s2 (StdoutData p chunk) = settle h (Fulfilled chunk) s3 ?k"
    using p2 cl by (simp add: step_def emit_data_def dl s3_def)
  then have "ui (step h ?s2 (StdoutData p chunk)) = ui s3 @ on_resolved h chunk"
    using pend3 len3 lh3 by (simp add: settle_def reaction_def)
  with ui3 show ?thesis by simp
qed

text \<open>
  Claim C2. \<open>handleTerminalLink\<close> consumes the resolution result at once. Its \<open>then\<close>
  callback, run with the resolver's output, shows a quick pick when the result has more
  than one file-path/line-number pair; the items list the pairs in their order, and
  choosing the item at an index opens the pair at that index. With exactly one pair it
  opens that file at that line without any quick pick. The result is never empty. When a
  link is clicked in a reachable state whose handle holds a process and that process then
  emits data, the requests made to the editor end with those of the callback for that
  data.
\<close>

theorem on_resolved_choice_or_open:
  "on_resolved h output =
     (if 1 < length (resolution_result h output)
      then [ShowQuickPick (quickPickItems (parse_output h output))]
      else [OpenFileLine (fst (resolution_result h output ! 0))
                         (snd (resolution_result h output ! 0))])
   \<and> resolution_result h output \<noteq> []
   \<and> map label (quickPickItems (parse_output h output)) =
       map (\<lambda>p. path_relative h (relativeTo h) (fst p)) (resolution_result h output)
   \<and> map (\<lambda>i. on_selected h output (Some i)) [0..<length (resolution_result h output)] =
       map (\<lambda>p. [OpenFileLine (fst p) (snd p)]) (resolution_result h output)
   \<and> on_selected h output None = []
   \<and> (s = run h initial_state es \<and> process s = Some p \<longrightarrow>
        (\<exists>acts. ui (step h (handleTerminalLink h link_text s) (StdoutData p output)) =
                  ui s @ acts @ on_resolved h output))"
proof -
  let ?rr = "resolution_result h output"
  have ne: "?rr \<noteq> []" by (rule resolution_result_not_Nil)
  then have pos: "0 < length ?rr" by simp
  have a: "on_resolved h output =
     (if 1 < length ?rr then [ShowQuickPick (quickPickItems (parse_output h output))]
      else [OpenFileLine (fst (?rr ! 0)) (snd (?rr ! 0))])"
  proof (cases "1 < length ?rr")
    case True
    then show ?thesis by (simp add: on_resolved_def Let_def length_parse_output)
  next
    case False
    with pos have one: "length ?rr = 1" by linarith
    then show ?thesis
      using nth_resolution_result [OF pos]
      by (simp add: on_resolved_def Let_def length_parse_output)
  qed
  have b: "map label (quickPickItems (parse_output h output)) =
       map (\<lambda>p. path_relative h (relativeTo h) (fst p)) ?rr"
    by (simp add: parse_output_eq resolution_result_def item_of_line_def)
  have c: "map (\<lambda>i. on_selected h output (Some i)) [0..<length ?rr] =
       map (\<lambda>p. [OpenFileLine (fst p) (snd p)]) ?rr"
  proof (rule nth_equalityI)
    show "length (map (\<lambda>i. on_selected h output (Some i)) [0..<length ?rr]) =
        length (map (\<lambda>p. [OpenFileLine (fst p) (snd p)]) ?rr)"
      by simp
  next
    fix i
    assume "i < length (map (\<lambda>i. on_selected h output (Some i)) [0..<length ?rr])"
    then have i: "i < length ?rr" by simp
    then show "map (\<lambda>i. on_selected h output (Some i)) [0..<length ?rr] ! i =
        map (\<lambda>p. [OpenFileLine (fst p) (snd p)]) ?rr ! i"
      using nth_resolution_result [OF i]
      by (simp add: on_selected_def Let_def length_parse_output)
  qed
  have d: "on_selected h output None = []"
    by (simp add: on_selected_def)
  have e: "s = run h initial_state es \<and> process s = Some p \<longrightarrow>
        (\<exists>acts. ui (step h (handleTerminalLink h link_text s) (StdoutData p output)) =
                  ui s @ acts @ on_resolved h output)"
    using link_click_then_data [of s h es p link_text "output"] by blast
  from a ne b c d e show ?thesis by (intro conjI)
qed


theorem on_resolved_choice_or_open_witness:
  "process (run example_host initial_state [MonitorTarget]) = Some 0
   \<and> (\<exists>acts. ui (step example_host
                    (handleTerminalLink example_host (js ''f+0x1/0x2'')
                       (run example_host initial_state [MonitorTarget]))
                    (StdoutData 0 (js ''a.c:7''))) =
                ui (run example_host initial_state [MonitorTarget]) @ acts
                  @ on_resolved example_host (js ''a.c:7''))
   \<and> ui (step example_host
             (handleTerminalLink example_host (js ''f+0x1/0x2'')
                (run example_host initial_state [MonitorTarget]))
             (StdoutData 0 (js ''a.c:7''))) = [OpenFileLine (js ''/ws/a.c'') 7]"
proof -
  have held: "process (run example_host initial_state [MonitorTarget]) = Some 0"
    by code_simp
  have opened: "ui (step example_host
             (handleTerminalLink example_host (js ''f+0x1/0x2'')
                (run example_host initial_state [MonitorTarget]))
             (StdoutData 0 (js ''a.c:7''))) = [OpenFileLine (js ''/ws/a.c'') 7]"
    by code_simp
  from on_resolved_choice_or_open
    [of example_host "js ''a.c:7''" "run example_host initial_state [MonitorTarget]"
      "[MonitorTarget]" 0 "js ''f+0x1/0x2''"] held
  have "\<exists>acts. ui (step example_host
                    (handleTerminalLink example_host (js ''f+0x1/0x2'')
                       (run example_host initial_state [MonitorTarget]))
                    (StdoutData 0 (js ''a.c:7''))) =
                ui (run example_host initial_state [MonitorTarget]) @ acts
                  @ on_resolved example_host (js ''a.c:7'')"
    by blast
  with held opened show ?thesis by (intro conjI)
qed

section \<open>Properties of the state kept between callbacks\<close>

lemma step_process:
  "\<not> changes_handle e \<Longrightarrow> process (step h s e) = process s"
  by (cases e) (simp_all add: step_def)

lemma filter_none: "(\<And>x. x \<in> set xs \<Longrightarrow> \<not> P x) \<Longrightarrow> filter P xs = []"
  by (induction xs) auto

lemma filter_upt_single:
  assumes "v < n" and "\<And>w. w < n \<Longrightarrow> P w \<longleftrightarrow> w = v"
  shows "filter P [0..<n] = [v]"
proof -
  have "[0..<n] = [0..<v] @ v # [Suc v..<n]"
    using assms(1) by (metis less_imp_add_positive upt_add_eq_append upt_conv_Cons zero_le
        le_add1 less_add_same_cancel1)
  moreover have "filter P [0..<v] = []"
    using assms by (intro filter_none) auto
  moreover have "filter P [Suc v..<n] = []"
    using assms by (intro filter_none) auto
  moreover have "P v" using assms by simp
  ultimately show ?thesis by simp
qed

lemma watcher_held_active:
  assumes "watcher_held s"
  shows "active_watchers s = (case targetWatcher s of None \<Rightarrow> [] | Some w \<Rightarrow> [w])"
proof (cases "targetWatcher s")
  case None
  with assms show ?thesis
    by (auto simp: watcher_held_def active_watchers_def intro!: filter_none)
next
  case (Some v)
  with assms have v: "v < length (watchers s)"
    and d: "\<And>w. w < length (watchers s) \<Longrightarrow> \<not> disposed (watchers s ! w) \<longleftrightarrow> w = v"
    by (auto simp: watcher_held_def)
  from filter_upt_single [of v "length (watchers s)" "\<lambda>w. \<not> disposed (watchers s ! w)", OF v d]
  show ?thesis by (simp add: active_watchers_def Some)
qed

lemma watcher_held_cong:
  "watchers s' = watchers s \<Longrightarrow> targetWatcher s' = targetWatcher s \<Longrightarrow>
   watcher_held s' = watcher_held s"
  by (simp add: watcher_held_def split: option.splits)

lemma watcher_held_unwatch:
  assumes "watcher_held s"
  shows "\<forall>w < length (watchers s).
     disposed (watchers (case targetWatcher s of
                  Some w \<Rightarrow> (dispose w s)\<lparr> targetWatcher := None \<rparr>
                | None \<Rightarrow> s) ! w)"
  using assms
  by (auto simp: watcher_held_def dispose_def nth_list_update split: option.splits)

lemma watcher_held_monitorTarget:
  assumes "watcher_held s"
  shows "watcher_held (monitorTarget h s)"
proof -
  define s1 where "s1 = (case targetWatcher s of
                  Some w \<Rightarrow> (dispose w s)\<lparr> targetWatcher := None \<rparr>
                | None \<Rightarrow> s)"
  have tw: "targetWatcher s1 = None"
    using assms by (auto simp: s1_def watcher_held_def split: option.splits)
  have len: "length (watchers s1) = length (watchers s)"
    by (simp add: s1_def split: option.splits)
  have alld: "\<forall>w < length (watchers s1). disposed (watchers s1 ! w)"
    using watcher_held_unwatch [OF assms] unfolding len unfolding s1_def .
  have h1: "watcher_held s1"
    using tw alld by (simp add: watcher_held_def)
  show ?thesis
  proof (cases "workspaceFolders h")
    case None
    then show ?thesis using h1 by (simp add: monitorTarget_def s1_def Let_def)
  next
    case (Some fs)
    show ?thesis
    proof (cases fs)
      case Nil
      with Some show ?thesis using h1 by (simp add: monitorTarget_def s1_def Let_def)
    next
      case (Cons folder rest)
      define t where "t = folder @ js ''/'' @ cfg_target h"
      define s2 where "s2 = (if existsSync h t then start h t s1 else s1)"
      have w2: "watchers s2 = watchers s1" by (simp add: s2_def)
      have "monitorTarget h s =
          s2\<lparr> watchers := watchers s2 @ [\<lparr> watched = t, disposed = False \<rparr>],
               targetWatcher := Some (length (watchers s2)) \<rparr>"
        by (simp add: monitorTarget_def Let_def Some Cons s1_def s2_def t_def)
      then show ?thesis
        using alld by (auto simp: watcher_held_def w2 nth_append)
    qed
  qed
qed

lemma watcher_held_step: "watcher_held s \<Longrightarrow> watcher_held (step h s e)"
proof (cases "e = MonitorTarget")
  case True
  assume "watcher_held s"
  then show ?thesis by (simp add: True step_def watcher_held_monitorTarget)
next
  case False
  assume "watcher_held s"
  moreover from step_watchers [OF False, of h s]
  have "watcher_held (step h s e) = watcher_held s"
    by (intro watcher_held_cong) simp_all
  ultimately show ?thesis by simp
qed

lemma watcher_held_run: "watcher_held s \<Longrightarrow> watcher_held (run h s es)"
  by (induction es arbitrary: s) (simp_all add: run_Cons watcher_held_step)

lemma watcher_held_initial: "watcher_held initial_state"
  by (simp add: watcher_held_def initial_state_def)


text \<open>
  Claim C8, as amended. Two variables persist between the operations of the extension:
  the process handle of the wrapper and the target watcher of \<open>activate\<close>. Only
  \<open>monitorTarget\<close> assigns the watcher variable; only \<open>start\<close>, \<open>stop\<close>,
  \<open>monitorTarget\<close>, a file event and the close of a child process assign the process
  handle; and in every reachable state the only watcher that is not disposed is the one
  the variable holds.
\<close>

theorem handle_and_watcher_persist:
  "(e \<noteq> MonitorTarget \<longrightarrow> targetWatcher (step h s e) = targetWatcher s)
   \<and> (\<not> changes_handle e \<longrightarrow> process (step h s e) = process s)
   \<and> active_watchers (run h initial_state es) =
       (case targetWatcher (run h initial_state es) of None \<Rightarrow> [] | Some w \<Rightarrow> [w])"
  using step_watchers [of e h s] step_process [of e h s]
    watcher_held_active [OF watcher_held_run [OF watcher_held_initial, of h es]]
  by simp


text \<open>
  The claim as stated fails on \<open>monitorTarget\<close>: with no target file the process handle
  stays \<open>null\<close>, but the watcher variable changes, and the next \<open>monitorTarget\<close> reads
  it to dispose the watcher it holds.
\<close>

theorem only_handle_persists_counterexample:
  "process initial_state = None
   \<and> process (step bare_host initial_state MonitorTarget) = None
   \<and> targetWatcher initial_state = None
   \<and> targetWatcher (step bare_host initial_state MonitorTarget)
       = Some 0
   \<and> map disposed (watchers (run bare_host initial_state
        [MonitorTarget, MonitorTarget])) = [True, False]"
  by code_simp




theorem handle_and_watcher_persist_witness:
  "TimerFired 3 \<noteq> MonitorTarget \<and> \<not> changes_handle (TimerFired 3)
   \<and> targetWatcher (step example_host (run example_host initial_state [MonitorTarget]) (TimerFired 3))
       = targetWatcher (run example_host initial_state [MonitorTarget])
   \<and> process (step example_host (run example_host initial_state [MonitorTarget]) (TimerFired 3))
       = process (run example_host initial_state [MonitorTarget])
   \<and> active_watchers (run example_host initial_state [MonitorTarget, MonitorTarget]) = [1]"
proof -
  have "targetWatcher (run example_host initial_state [MonitorTarget, MonitorTarget]) = Some 1"
    by code_simp
  with handle_and_watcher_persist [of "TimerFired 3" example_host "run example_host initial_state [MonitorTarget]"
      "[MonitorTarget, MonitorTarget]"]
  show ?thesis by simp
qed


end
